theory Spec2Isabelle
  imports Main "HOL-Library.Word" "HOL-Library.Multiset"
begin

unbundle bit_operations_syntax

section \<open>Handles (handle\_map.h, struct Id\_T)\<close>

text \<open>
  The four bit-fields of \<open>Id_T\<close>, in declaration order: a 32-bit index, a 16-bit
  generation, a 15-bit type id and a 1-bit free flag.
\<close>

record Id_T =
  index :: "32 word"
  generation :: "16 word"
  typeId :: "15 word"
  free :: "1 word"

text \<open>
  The member \<open>value\<close> of the union: the 64-bit integer that shares its storage with the
  four fields. The fields are laid out in declaration order from the least significant
  bit (index in bits 0..31, generation in bits 32..47, typeId in bits 48..62, free in
  bit 63), which is the layout the comment on the bit-field relies on.
\<close>

definition id_value :: "Id_T \<Rightarrow> 64 word" where
  "id_value a =
     ucast (index a) OR push_bit 32 (ucast (generation a)) OR
     push_bit 48 (ucast (typeId a)) OR push_bit 63 (ucast (free a))"

text \<open>The four comparison operators of handle\_map-inl.h, lines 19 to 22.\<close>

definition id_eq :: "Id_T \<Rightarrow> Id_T \<Rightarrow> bool" where
  "id_eq a b = (id_value a = id_value b)"

definition id_neq :: "Id_T \<Rightarrow> Id_T \<Rightarrow> bool" where
  "id_neq a b = (id_value a \<noteq> id_value b)"

definition id_less :: "Id_T \<Rightarrow> Id_T \<Rightarrow> bool" where
  "id_less a b = (id_value a < id_value b)"

definition id_greater :: "Id_T \<Rightarrow> Id_T \<Rightarrow> bool" where
  "id_greater a b = (id_value a > id_value b)"

text \<open>\<open>Id_T{}\<close> and \<open>Id_T handle = { 0 }\<close>: every field zero.\<close>

definition NullId_T :: Id_T where
  "NullId_T = \<lparr>index = 0, generation = 0, typeId = 0, free = 0\<rparr>"

section \<open>The container (class handle\_map)\<close>

record Meta_T =
  denseToSparse :: "32 word"

text \<open>
  The member variables of \<open>handle_map<T>\<close>. The three vectors are lists;
  \<open>m_capacity\<close> stands for \<open>m_items.capacity()\<close>, the only capacity the class reports.
\<close>

record 'a handle_map =
  m_freeListFront :: "32 word"
  m_freeListBack :: "32 word"
  m_itemTypeId :: "16 word"
  m_fragmented :: "8 word"
  m_sparseIds :: "Id_T list"
  m_items :: "'a list"
  m_meta :: "Meta_T list"
  m_capacity :: nat

text \<open>
  What can go wrong inside an operation: \<open>vector::at\<close> throws \<open>std::out_of_range\<close>;
  an unchecked access (\<open>operator[]\<close>, \<open>pop_back\<close> on an empty vector, \<open>memmove\<close>
  beyond the array) outside the vector has no defined behaviour; an \<open>assert\<close> fails.
  An operation that ends in one of these returns the error and no state.
\<close>

datatype error = OutOfRange | Undefined | AssertFailed

text \<open>The end-of-list mark of the embedded free-list, \<open>0xFFFFFFFF\<close>.\<close>

abbreviation sentinel :: "32 word" where
  "sentinel \<equiv> 0xFFFFFFFF"

text \<open>
  The constructor: the default member initialisers, and \<open>reserve(reserveCount)\<close> on
  the empty vectors, which makes the capacity \<open>reserveCount\<close>.
\<close>

definition new_handle_map :: "16 word \<Rightarrow> nat \<Rightarrow> 'a handle_map" where
  "new_handle_map itemTypeId reserveCount =
     \<lparr>m_freeListFront = sentinel, m_freeListBack = sentinel,
      m_itemTypeId = itemTypeId, m_fragmented = 0,
      m_sparseIds = [], m_items = [], m_meta = [], m_capacity = reserveCount\<rparr>"

definition freeListEmpty :: "'a handle_map \<Rightarrow> bool" where
  "freeListEmpty m = (m_freeListFront m = sentinel)"

definition size_hm :: "'a handle_map \<Rightarrow> nat" where
  "size_hm m = length (m_items m)"


text \<open>
  \<open>m_items.push_back(i); m_meta.push_back({ handle.index })\<close>. A vector that is full
  grows on \<open>push_back\<close>; by how much is the library's choice, here doubling.
\<close>

definition push_back_item :: "'a \<Rightarrow> 32 word \<Rightarrow> 'a handle_map \<Rightarrow> 'a handle_map" where
  "push_back_item i outer m =
     m\<lparr>m_items := m_items m @ [i],
       m_meta := m_meta m @ [\<lparr>denseToSparse = outer\<rparr>],
       m_capacity := (if length (m_items m) < m_capacity m then m_capacity m
                      else max (length (m_items m) + 1) (2 * m_capacity m))\<rparr>"

subsection \<open>insert\<close>

text \<open>
  \<open>insert(T&& i)\<close>, lines 26 to 66. The sizes are cast to \<open>uint32_t\<close> as in the
  source; \<open>m_sparseIds.at(outerIndex)\<close> throws when the free-list front is outside the
  sparse table. The copying overload \<open>insert(const T&)\<close> and \<open>emplace\<close> call this one.
\<close>

definition insert_item :: "'a handle_map \<Rightarrow> 'a \<Rightarrow> error + ('a handle_map \<times> Id_T)" where
  "insert_item m0 i =
     (let m = m0\<lparr>m_fragmented := 1\<rparr> in
      if freeListEmpty m then
        (let innerId = \<lparr>index = of_nat (length (m_items m)), generation = 1,
                        typeId = ucast (m_itemTypeId m), free = 0\<rparr>;
             handle = innerId\<lparr>index := of_nat (length (m_sparseIds m))\<rparr>;
             m1 = m\<lparr>m_sparseIds := m_sparseIds m @ [innerId]\<rparr>
         in Inr (push_back_item i (index handle) m1, handle))
      else
        (let outerIndex = m_freeListFront m in
         if \<not> unat outerIndex < length (m_sparseIds m) then Inl OutOfRange
         else
           (let innerId = m_sparseIds m ! unat outerIndex;
                m1 = m\<lparr>m_freeListFront := index innerId\<rparr>;
                m2 = (if freeListEmpty m1 then m1\<lparr>m_freeListBack := m_freeListFront m1\<rparr>
                      else m1);
                innerId' = innerId\<lparr>free := 0, index := of_nat (length (m_items m2))\<rparr>;
                m3 = m2\<lparr>m_sparseIds := (m_sparseIds m2)[unat outerIndex := innerId']\<rparr>;
                handle = innerId'\<lparr>index := outerIndex\<rparr>
            in Inr (push_back_item i (index handle) m3, handle))))"

subsection \<open>isValid, at, getInnerIndex\<close>

text \<open>
  \<open>isValid\<close>, lines 214 to 226. The 15-bit \<open>typeId\<close> of the handle is compared with the
  16-bit \<open>m_itemTypeId\<close> after the usual promotion, so as numbers.
\<close>

definition isValid :: "'a handle_map \<Rightarrow> Id_T \<Rightarrow> bool" where
  "isValid m handle =
     (if unat (index handle) \<ge> length (m_sparseIds m) then False
      else
        (let innerId = m_sparseIds m ! unat (index handle) in
         unat (index innerId) < length (m_items m) \<and>
         ucast (typeId handle) = m_itemTypeId m \<and>
         generation handle = generation innerId))"

text \<open>
  \<open>at\<close> and \<open>getInnerIndex\<close>, lines 184 to 241, with their four assertions checked in
  the order of the source, as a build with assertions runs them.
\<close>

definition getInnerIndex :: "'a handle_map \<Rightarrow> Id_T \<Rightarrow> error + 32 word" where
  "getInnerIndex m handle =
     (if \<not> unat (index handle) < length (m_sparseIds m) then Inl AssertFailed
      else
        (let innerId = m_sparseIds m ! unat (index handle) in
         if \<not> ucast (typeId handle) = m_itemTypeId m then Inl AssertFailed
         else if \<not> generation handle = generation innerId then Inl AssertFailed
         else if \<not> unat (index innerId) < length (m_items m) then Inl AssertFailed
         else Inr (index innerId)))"

definition at :: "'a handle_map \<Rightarrow> Id_T \<Rightarrow> error + 'a" where
  "at m handle =
     (case getInnerIndex m handle of
        Inl e \<Rightarrow> Inl e
      | Inr innerIndex \<Rightarrow> Inr (m_items m ! unat innerIndex))"

subsection \<open>erase\<close>

text \<open>\<open>std::swap(v.at(i), v.back())\<close> on a vector that holds position \<open>i\<close>.\<close>

definition swap_with_back :: "'b list \<Rightarrow> nat \<Rightarrow> 'b list" where
  "swap_with_back v i = v[i := last v, length v - 1 := v ! i]"

text \<open>
  \<open>erase\<close>, lines 93 to 133, statement by statement: the validity check, the push of
  the slot to the back of the free-list, the swap with the last dense element guarded by
  \<open>m_items.size() > 1\<close>, the fix of the sparse entry named by the metadata now at
  \<open>innerIndex\<close>, and the two \<open>pop_back\<close>.
\<close>

definition erase :: "'a handle_map \<Rightarrow> Id_T \<Rightarrow> error + ('a handle_map \<times> nat)" where
  "erase m0 handle =
     (if \<not> isValid m0 handle then Inr (m0, 0)
      else
        (let m = m0\<lparr>m_fragmented := 1\<rparr>;
             outer = unat (index handle);
             innerId = m_sparseIds m ! outer;
             innerIndex = unat (index innerId);
             innerId' = innerId\<lparr>free := 1, generation := generation innerId + 1,
                                index := sentinel\<rparr>;
             m1 = m\<lparr>m_sparseIds := (m_sparseIds m)[outer := innerId']\<rparr>
         in
         if \<not> freeListEmpty m1 \<and> \<not> unat (m_freeListBack m1) < length (m_sparseIds m1)
         then Inl Undefined
         else
           (let m2 =
                  (if freeListEmpty m1
                   then m1\<lparr>m_freeListFront := index handle, m_freeListBack := index handle\<rparr>
                   else
                     m1\<lparr>m_sparseIds :=
                          (m_sparseIds m1)[unat (m_freeListBack m1) :=
                             (m_sparseIds m1 ! unat (m_freeListBack m1))
                               \<lparr>index := index handle\<rparr>],
                        m_freeListBack := index handle\<rparr>)
            in
            if length (m_items m2) > 1 then
              (if \<not> innerIndex < length (m_meta m2) then Inl OutOfRange
               else
                 (let items' = swap_with_back (m_items m2) innerIndex;
                      meta' = swap_with_back (m_meta m2) innerIndex;
                      k = unat (denseToSparse (meta' ! innerIndex))
                  in
                  if \<not> k < length (m_sparseIds m2) then Inl Undefined
                  else
                    Inr (m2\<lparr>m_sparseIds :=
                               (m_sparseIds m2)[k :=
                                  (m_sparseIds m2 ! k)\<lparr>index := of_nat innerIndex\<rparr>],
                             m_items := butlast items',
                             m_meta := butlast meta'\<rparr>, 1)))
            else if m_meta m2 = [] then Inl Undefined
            else Inr (m2\<lparr>m_items := butlast (m_items m2),
                          m_meta := butlast (m_meta m2)\<rparr>, 1))))"

text \<open>\<open>eraseItems\<close>, lines 136 to 144: one \<open>erase\<close> per handle, the counts added up.\<close>

fun eraseItems :: "'a handle_map \<Rightarrow> Id_T list \<Rightarrow> error + ('a handle_map \<times> nat)" where
  "eraseItems m [] = Inr (m, 0)"
| "eraseItems m (h # hs) =
     (case erase m h of
        Inl e \<Rightarrow> Inl e
      | Inr (m', c) \<Rightarrow>
          (case eraseItems m' hs of
             Inl e \<Rightarrow> Inl e
           | Inr (m'', n) \<Rightarrow> Inr (m'', c + n)))"

subsection \<open>emplaceItems\<close>

text \<open>\<open>std::generate_n(handles.begin(), n, ...)\<close>: \<open>n\<close> calls of \<open>emplace\<close>, in order.\<close>

fun generate_n :: "'a handle_map \<Rightarrow> nat \<Rightarrow> 'a \<Rightarrow> error + ('a handle_map \<times> Id_T list)" where
  "generate_n m 0 x = Inr (m, [])"
| "generate_n m (Suc n) x =
     (case insert_item m x of
        Inl e \<Rightarrow> Inl e
      | Inr (m', h) \<Rightarrow>
          (case generate_n m' n x of
             Inl e \<Rightarrow> Inl e
           | Inr (m'', hs) \<Rightarrow> Inr (m'', h # hs)))"

text \<open>
  \<open>emplaceItems\<close>, lines 76 to 90; \<open>x\<close> is the item \<open>T{ args... }\<close> that every
  \<open>emplace\<close> builds. It fails unless \<open>n > 0\<close>. \<open>reserve\<close> raises the capacity to
  the size needed when it is below.
\<close>

definition emplaceItems :: "'a handle_map \<Rightarrow> int \<Rightarrow> 'a \<Rightarrow> error + ('a handle_map \<times> Id_T list)" where
  "emplaceItems m n x =
     (if \<not> n > 0 then Inl AssertFailed
      else
        generate_n
          (m\<lparr>m_fragmented := 1,
             m_capacity := max (m_capacity m) (length (m_items m) + nat n)\<rparr>)
          (nat n) x)"

subsection \<open>clear and reset\<close>

text \<open>
  The loop of \<open>clear\<close>, lines 160 to 165, over the positions \<open>i, i + 1, ...\<close> of the
  sparse table; \<open>id.index = i + 1\<close> is 32-bit arithmetic.
\<close>

fun clear_loop :: "32 word \<Rightarrow> Id_T list \<Rightarrow> Id_T list" where
  "clear_loop i [] = []"
| "clear_loop i (x # xs) =
     x\<lparr>free := 1, generation := generation x + 1, index := i + 1\<rparr> # clear_loop (i + 1) xs"

text \<open>
  \<open>clear\<close>, lines 147 to 168. \<open>size\<close> is the sparse table's size cast to 32 bits; the
  loop runs over the first \<open>size\<close> entries. Clearing a vector leaves its capacity.
\<close>

definition clear :: "'a handle_map \<Rightarrow> 'a handle_map" where
  "clear m =
     (let size = (of_nat (length (m_sparseIds m)) :: 32 word) in
      if size > 0 then
        (let ids = clear_loop 0 (take (unat size) (m_sparseIds m)) @
                   drop (unat size) (m_sparseIds m)
         in m\<lparr>m_items := [], m_meta := [],
              m_freeListFront := 0, m_freeListBack := size - 1, m_fragmented := 0,
              m_sparseIds := ids[unat (size - 1) := (ids ! unat (size - 1))\<lparr>index := sentinel\<rparr>]\<rparr>)
      else m)"

text \<open>\<open>reset\<close>, lines 171 to 181.\<close>

definition reset :: "'a handle_map \<Rightarrow> 'a handle_map" where
  "reset m =
     m\<lparr>m_freeListFront := sentinel, m_freeListBack := sentinel, m_fragmented := 0,
       m_items := [], m_meta := [], m_sparseIds := []\<rparr>"

subsection \<open>defragment\<close>

text \<open>
  In \<open>defragment\<close> the source keeps two \<open>int\<close> counters with \<open>j1 = j + 1\<close> throughout.
  The model recurses on \<open>j1\<close>: the pattern \<open>Suc j\<close> is the test \<open>j >= 0\<close>, and \<open>j\<close> is
  the source's \<open>j\<close>. The counts \<open>swaps\<close> and \<open>maxSwaps\<close> (\<open>size_t\<close>) and the positions
  (\<open>int\<close>) are natural numbers; a position is cast to 32 bits where the source stores it
  into an \<open>index\<close> field.
\<close>

type_synonym 'a Compare = "'a \<Rightarrow> 'a \<Rightarrow> bool"

text \<open>\<open>m_sparseIds[k].index = p\<close>, an unchecked write.\<close>

definition set_sparse_index :: "'a handle_map \<Rightarrow> nat \<Rightarrow> nat \<Rightarrow> 'a handle_map" where
  "set_sparse_index m k p =
     m\<lparr>m_sparseIds := (m_sparseIds m)[k := (m_sparseIds m ! k)\<lparr>index := of_nat p\<rparr>]\<rparr>"

text \<open>
  The inner loop of the standard implementation, lines 278 to 287: it stops on the
  swap budget as well as on the comparison, and moves one item and its metadata a
  position up per round.
\<close>

fun shift_standard ::
  "'a Compare \<Rightarrow> nat \<Rightarrow> 'a \<Rightarrow> 'a handle_map \<Rightarrow> nat \<Rightarrow> nat \<Rightarrow>
   error + ('a handle_map \<times> nat \<times> nat)" where
  "shift_standard cmp maxSwaps tmp m 0 swaps = Inr (m, 0, swaps)"
| "shift_standard cmp maxSwaps tmp m (Suc j) swaps =
     (if \<not> (maxSwaps = 0 \<or> swaps < maxSwaps) then Inr (m, Suc j, swaps)
      else if \<not> j < length (m_items m) then Inl Undefined
      else if \<not> cmp (m_items m ! j) tmp then Inr (m, Suc j, swaps)
      else if \<not> (Suc j < length (m_items m) \<and> Suc j < length (m_meta m)) then Inl Undefined
      else
        (let m1 = m\<lparr>m_items := (m_items m)[Suc j := m_items m ! j],
                    m_meta := (m_meta m)[Suc j := m_meta m ! j]\<rparr>;
             k = unat (denseToSparse (m_meta m1 ! Suc j))
         in
         if \<not> k < length (m_sparseIds m1) then Inl Undefined
         else shift_standard cmp maxSwaps tmp (set_sparse_index m1 k (Suc j)) j (swaps + 1)))"

text \<open>
  The inner loop of the trivially copyable implementation, lines 261 to 265: it only
  rewrites sparse entries and has no budget test.
\<close>

fun scan_trivial ::
  "'a Compare \<Rightarrow> 'a \<Rightarrow> 'a handle_map \<Rightarrow> nat \<Rightarrow> error + ('a handle_map \<times> nat)" where
  "scan_trivial cmp tmp m 0 = Inr (m, 0)"
| "scan_trivial cmp tmp m (Suc j) =
     (if \<not> j < length (m_items m) then Inl Undefined
      else if \<not> cmp (m_items m ! j) tmp then Inr (m, Suc j)
      else if \<not> j < length (m_meta m) then Inl Undefined
      else
        (let k = unat (denseToSparse (m_meta m ! j)) in
         if \<not> k < length (m_sparseIds m) then Inl Undefined
         else scan_trivial cmp tmp (set_sparse_index m k (Suc j)) j))"

text \<open>\<open>memmove(&v[dst], &v[src], n * sizeof(element))\<close> within one vector.\<close>

definition memmove :: "'b list \<Rightarrow> nat \<Rightarrow> nat \<Rightarrow> nat \<Rightarrow> 'b list" where
  "memmove v dst src n = take dst v @ take n (drop src v) @ drop (dst + n) v"

text \<open>
  Lines 271 to 273 and 290 to 292, the same three statements in both implementations:
  \<open>tmp\<close> and its metadata go to position \<open>j1\<close> and the sparse entry of the metadata is
  pointed there.
\<close>

definition place_tmp ::
  "'a handle_map \<Rightarrow> nat \<Rightarrow> 'a \<Rightarrow> Meta_T \<Rightarrow> error + 'a handle_map" where
  "place_tmp m j1 tmp tmpMeta =
     (if \<not> (j1 < length (m_items m) \<and> j1 < length (m_meta m)) then Inl Undefined
      else
        (let m1 = m\<lparr>m_items := (m_items m)[j1 := tmp], m_meta := (m_meta m)[j1 := tmpMeta]\<rparr>;
             k = unat (denseToSparse (m_meta m1 ! j1))
         in if \<not> k < length (m_sparseIds m1) then Inl Undefined
            else Inr (set_sparse_index m1 k j1)))"

text \<open>
  The body of the outer loop, lines 253 to 294, for one position \<open>i\<close>. The flag
  \<open>trivially_copyable\<close> is \<open>std::is_trivially_copyable<T>::value\<close>.
\<close>

definition defragment_body ::
  "bool \<Rightarrow> 'a Compare \<Rightarrow> nat \<Rightarrow> 'a handle_map \<Rightarrow> nat \<Rightarrow> nat \<Rightarrow>
   error + ('a handle_map \<times> nat)" where
  "defragment_body trivially_copyable cmp maxSwaps m i swaps =
     (if \<not> (i < length (m_items m) \<and> i < length (m_meta m)) then Inl Undefined
      else
        (let tmp = m_items m ! i; tmpMeta = m_meta m ! i in
         if trivially_copyable then
           (case scan_trivial cmp tmp m i of
              Inl e \<Rightarrow> Inl e
            | Inr (m1, j1) \<Rightarrow>
                if j1 \<noteq> i then
                  (case place_tmp
                          (m1\<lparr>m_items := memmove (m_items m1) (j1 + 1) j1 (i - j1),
                              m_meta := memmove (m_meta m1) (j1 + 1) j1 (i - j1)\<rparr>)
                          j1 tmp tmpMeta of
                     Inl e \<Rightarrow> Inl e
                   | Inr m2 \<Rightarrow> Inr (m2, swaps + 1))
                else Inr (m1, swaps))
         else
           (case shift_standard cmp maxSwaps tmp m i swaps of
              Inl e \<Rightarrow> Inl e
            | Inr (m1, j1, swaps1) \<Rightarrow>
                if j1 \<noteq> i then
                  (case place_tmp m1 j1 tmp tmpMeta of
                     Inl e \<Rightarrow> Inl e
                   | Inr m2 \<Rightarrow> Inr (m2, swaps1))
                else Inr (m1, swaps1))))"

lemma set_sparse_index_simps [simp]:
  "m_items (set_sparse_index m k p) = m_items m"
  "m_meta (set_sparse_index m k p) = m_meta m"
  "m_fragmented (set_sparse_index m k p) = m_fragmented m"
  "m_freeListFront (set_sparse_index m k p) = m_freeListFront m"
  "m_freeListBack (set_sparse_index m k p) = m_freeListBack m"
  "m_itemTypeId (set_sparse_index m k p) = m_itemTypeId m"
  "m_capacity (set_sparse_index m k p) = m_capacity m"
  "length (m_sparseIds (set_sparse_index m k p)) = length (m_sparseIds m)"
  by (simp_all add: set_sparse_index_def)

lemma shift_standard_length:
  "shift_standard cmp maxSwaps tmp m j1 swaps = Inr (m', j1', swaps') \<Longrightarrow>
   length (m_items m') = length (m_items m) \<and> length (m_meta m') = length (m_meta m) \<and>
   length (m_sparseIds m') = length (m_sparseIds m)"
proof (induction j1 arbitrary: m swaps)
  case 0
  then show ?case by simp
next
  case (Suc j)
  then show ?case
    by (fastforce simp: Let_def split: if_splits)
qed

lemma scan_trivial_length:
  "scan_trivial cmp tmp m j1 = Inr (m', j1') \<Longrightarrow>
   m_items m' = m_items m \<and> m_meta m' = m_meta m \<and>
   length (m_sparseIds m') = length (m_sparseIds m) \<and> j1' \<le> j1"
proof (induction j1 arbitrary: m)
  case 0
  then show ?case by simp
next
  case (Suc j)
  then show ?case
    by (fastforce simp: Let_def split: if_splits)
qed

lemma place_tmp_length:
  "place_tmp m j1 tmp tmpMeta = Inr m' \<Longrightarrow>
   length (m_items m') = length (m_items m) \<and> length (m_meta m') = length (m_meta m) \<and>
   length (m_sparseIds m') = length (m_sparseIds m)"
  by (auto simp: place_tmp_def Let_def split: if_splits)

lemma memmove_length:
  "dst + n \<le> length v \<Longrightarrow> src + n \<le> length v \<Longrightarrow> length (memmove v dst src n) = length v"
  by (simp add: memmove_def)

lemma defragment_body_length:
  assumes "defragment_body tc cmp maxSwaps m i swaps = Inr (m', swaps')"
  shows "length (m_items m') = length (m_items m) \<and> length (m_meta m') = length (m_meta m) \<and>
         length (m_sparseIds m') = length (m_sparseIds m)"
proof (cases tc)
  case True
  from assms True obtain m1 j1 where
    i: "i < length (m_items m)" "i < length (m_meta m)" and
    sc: "scan_trivial cmp (m_items m ! i) m i = Inr (m1, j1)"
    by (auto simp: defragment_body_def Let_def split: if_splits sum.splits)
  from scan_trivial_length [OF sc] have
    eq: "m_items m1 = m_items m" "m_meta m1 = m_meta m"
        "length (m_sparseIds m1) = length (m_sparseIds m)" "j1 \<le> i"
    by simp_all
  show ?thesis
  proof (cases "j1 = i")
    case True
    with assms \<open>tc\<close> i sc eq show ?thesis
      by (simp add: defragment_body_def Let_def)
  next
    case False
    with assms \<open>tc\<close> i sc obtain m2 where
      pl: "place_tmp (m1\<lparr>m_items := memmove (m_items m1) (j1 + 1) j1 (i - j1),
                         m_meta := memmove (m_meta m1) (j1 + 1) j1 (i - j1)\<rparr>)
             j1 (m_items m ! i) (m_meta m ! i) = Inr m2" and "m' = m2"
      by (auto simp: defragment_body_def Let_def split: sum.splits)
    from place_tmp_length [OF pl] eq i \<open>m' = m2\<close> show ?thesis
      by (simp add: memmove_length)
  qed
next
  case False
  from assms False obtain m1 j1 swaps1 where
    sh: "shift_standard cmp maxSwaps (m_items m ! i) m i swaps = Inr (m1, j1, swaps1)"
    by (auto simp: defragment_body_def Let_def split: if_splits sum.splits)
  note len = shift_standard_length [OF sh]
  show ?thesis
  proof (cases "j1 = i")
    case True
    with assms \<open>\<not> tc\<close> sh len show ?thesis
      by (auto simp: defragment_body_def Let_def split: if_splits)
  next
    case False
    with assms \<open>\<not> tc\<close> sh obtain m2 where
      pl: "place_tmp m1 j1 (m_items m ! i) (m_meta m ! i) = Inr m2" and "m' = m2"
      by (auto simp: defragment_body_def Let_def split: if_splits sum.splits)
    from place_tmp_length [OF pl] len \<open>m' = m2\<close> show ?thesis by simp
  qed
qed

text \<open>
  The outer loop, line 252: \<open>i\<close> runs from 1 while it is below \<open>m_items.size()\<close> and the
  budget is not used up. It returns the state, the final \<open>i\<close> and \<open>swaps\<close>.
\<close>

function defragment_loop ::
  "bool \<Rightarrow> 'a Compare \<Rightarrow> nat \<Rightarrow> 'a handle_map \<Rightarrow> nat \<Rightarrow> nat \<Rightarrow>
   error + ('a handle_map \<times> nat \<times> nat)" where
  "defragment_loop trivially_copyable cmp maxSwaps m i swaps =
     (if i < length (m_items m) \<and> (maxSwaps = 0 \<or> swaps < maxSwaps) then
        (case defragment_body trivially_copyable cmp maxSwaps m i swaps of
           Inl e \<Rightarrow> Inl e
         | Inr (m', swaps') \<Rightarrow>
             defragment_loop trivially_copyable cmp maxSwaps m' (i + 1) swaps')
      else Inr (m, i, swaps))"
  by pat_completeness auto
termination
proof (relation "measure (\<lambda>(tc, cmp, maxSwaps, m, i, swaps). length (m_items m) - i)")
  show "wf (measure (\<lambda>(tc, cmp, maxSwaps, m, i, swaps). length (m_items m) - i))"
    by simp
next
  fix trivially_copyable :: bool and cmp :: "'a Compare" and maxSwaps m i swaps x2 x y
  assume "i < length (m_items m) \<and> (maxSwaps = 0 \<or> swaps < maxSwaps)"
    and "defragment_body trivially_copyable cmp maxSwaps m i swaps = Inr x2"
    and "(x, y) = x2"
  then show "((trivially_copyable, cmp, maxSwaps, x, i + 1, y),
              trivially_copyable, cmp, maxSwaps, m, i, swaps)
             \<in> measure (\<lambda>(tc, cmp, maxSwaps, m, i, swaps). length (m_items m) - i)"
    using defragment_body_length [of trivially_copyable cmp maxSwaps m i swaps x y]
    by auto
qed

declare defragment_loop.simps [simp del]

text \<open>
  \<open>defragment\<close>, lines 244 to 301: nothing happens when the container is not marked
  fragmented; the mark is taken off when the loop ends with \<open>i == m_items.size()\<close>.
\<close>

definition defragment ::
  "bool \<Rightarrow> 'a Compare \<Rightarrow> nat \<Rightarrow> 'a handle_map \<Rightarrow> error + ('a handle_map \<times> nat)" where
  "defragment trivially_copyable cmp maxSwaps m =
     (if m_fragmented m = 0 then Inr (m, 0)
      else
        (case defragment_loop trivially_copyable cmp maxSwaps m 1 0 of
           Inl e \<Rightarrow> Inl e
         | Inr (m', i, swaps) \<Rightarrow>
             Inr (if i = length (m_items m') then m'\<lparr>m_fragmented := 0\<rparr> else m', swaps)))"

section \<open>Sequences of public operations\<close>

text \<open>
  A call of one of the mutating public operations with its arguments, what it returns,
  and a sequence of calls run from a given state. A state is reachable when some
  sequence of calls leads to it from a freshly constructed container.
\<close>

datatype 'a call =
    Insert 'a
  | EmplaceItems int 'a
  | Erase Id_T
  | EraseItems "Id_T list"
  | Clear
  | Reset
  | Defragment bool "'a Compare" nat

datatype outcome = Handle Id_T | Handles "Id_T list" | Count nat | Done

fun call_op :: "'a handle_map \<Rightarrow> 'a call \<Rightarrow> error + ('a handle_map \<times> outcome)" where
  "call_op m (Insert x) = map_sum id (\<lambda>(m', h). (m', Handle h)) (insert_item m x)"
| "call_op m (EmplaceItems n x) = map_sum id (\<lambda>(m', hs). (m', Handles hs)) (emplaceItems m n x)"
| "call_op m (Erase h) = map_sum id (\<lambda>(m', c). (m', Count c)) (erase m h)"
| "call_op m (EraseItems hs) = map_sum id (\<lambda>(m', c). (m', Count c)) (eraseItems m hs)"
| "call_op m Clear = Inr (clear m, Done)"
| "call_op m Reset = Inr (reset m, Done)"
| "call_op m (Defragment tc cmp maxSwaps) =
     map_sum id (\<lambda>(m', c). (m', Count c)) (defragment tc cmp maxSwaps m)"

fun run :: "'a handle_map \<Rightarrow> 'a call list \<Rightarrow> error + ('a handle_map \<times> outcome list)" where
  "run m [] = Inr (m, [])"
| "run m (c # cs) =
     (case call_op m c of
        Inl e \<Rightarrow> Inl e
      | Inr (m', out) \<Rightarrow>
          (case run m' cs of
             Inl e \<Rightarrow> Inl e
           | Inr (m'', outs) \<Rightarrow> Inr (m'', out # outs)))"

inductive reachable :: "'a handle_map \<Rightarrow> bool" where
  fresh: "reachable (new_handle_map itemTypeId reserveCount)"
| step: "reachable m \<Longrightarrow> call_op m c = Inr (m', out) \<Longrightarrow> reachable m'"

section \<open>The free-list invariant\<close>

text \<open>
  The walk along the embedded free-list from a slot \<open>k\<close>: the slots passed, in order,
  when the walk comes to the end mark inside the sparse table within the given number
  of steps. A table of \<open>n\<close> slots has no walk of more than \<open>n\<close> different slots.
\<close>

fun free_list_walk :: "nat \<Rightarrow> Id_T list \<Rightarrow> 32 word \<Rightarrow> nat list option" where
  "free_list_walk 0 ids k = (if k = sentinel then Some [] else None)"
| "free_list_walk (Suc n) ids k =
     (if k = sentinel then Some []
      else if unat k < length ids
      then map_option (Cons (unat k)) (free_list_walk n ids (index (ids ! unat k)))
      else None)"

text \<open>
  The invariant of the data model: the walk from the front visits every slot whose
  free bit is set, each once, ends at the recorded back, and reaches the end mark.
\<close>

definition free_list_ok :: "'a handle_map \<Rightarrow> bool" where
  "free_list_ok m =
     (case free_list_walk (length (m_sparseIds m)) (m_sparseIds m) (m_freeListFront m) of
        None \<Rightarrow> False
      | Some ks \<Rightarrow>
          distinct ks \<and>
          set ks = set (filter (\<lambda>k. free (m_sparseIds m ! k) = 1) [0..<length (m_sparseIds m)]) \<and>
          (if ks = [] then m_freeListBack m = sentinel else unat (m_freeListBack m) = last ks))"

text \<open>
  The order on handles as the specification words it: by the fields, with priority free,
  then typeId, then generation, then index.
\<close>

definition lex_less :: "Id_T \<Rightarrow> Id_T \<Rightarrow> bool" where
  "lex_less a b =
     (free a < free b \<or> (free a = free b \<and>
       (typeId a < typeId b \<or> (typeId a = typeId b \<and>
         (generation a < generation b \<or> (generation a = generation b \<and>
            index a < index b))))))"


text \<open>A container with stored items has sparse entries.\<close>

definition sparse_covers :: "'a handle_map \<Rightarrow> bool" where
  "sparse_covers m = (m_sparseIds m = [] \<longrightarrow> m_items m = [])"

text \<open>
  The container of type id 3 after \<open>insert(10)\<close> and \<open>insert(20)\<close>, the two handles it
  returned, and the container after \<open>erase\<close> of the first of them.
\<close>

definition handle_0 :: Id_T where
  "handle_0 = \<lparr>index = 0, generation = 1, typeId = 3, free = 0\<rparr>"

definition handle_1 :: Id_T where
  "handle_1 = \<lparr>index = 1, generation = 1, typeId = 3, free = 0\<rparr>"

definition two_items :: "int handle_map" where
  "two_items =
     \<lparr>m_freeListFront = sentinel, m_freeListBack = sentinel, m_itemTypeId = 3,
      m_fragmented = 1,
      m_sparseIds = [\<lparr>index = 0, generation = 1, typeId = 3, free = 0\<rparr>,
                     \<lparr>index = 1, generation = 1, typeId = 3, free = 0\<rparr>],
      m_items = [10, 20],
      m_meta = [\<lparr>denseToSparse = 0\<rparr>, \<lparr>denseToSparse = 1\<rparr>],
      m_capacity = 2\<rparr>"


text \<open>
  The container of type id 3 after \<open>insert(2)\<close>, \<open>insert(3)\<close>, \<open>insert(1)\<close>.
\<close>

definition three_items :: "int handle_map" where
  "three_items =
     \<lparr>m_freeListFront = sentinel, m_freeListBack = sentinel, m_itemTypeId = 3,
      m_fragmented = 1,
      m_sparseIds = [\<lparr>index = 0, generation = 1, typeId = 3, free = 0\<rparr>,
                     \<lparr>index = 1, generation = 1, typeId = 3, free = 0\<rparr>,
                     \<lparr>index = 2, generation = 1, typeId = 3, free = 0\<rparr>],
      m_items = [2, 3, 1],
      m_meta = [\<lparr>denseToSparse = 0\<rparr>, \<lparr>denseToSparse = 1\<rparr>, \<lparr>denseToSparse = 2\<rparr>],
      m_capacity = 4\<rparr>"






text \<open>The sparse slot that the metadata at dense position \<open>p\<close> names.\<close>

definition slot_of :: "'a handle_map \<Rightarrow> nat \<Rightarrow> nat" where
  "slot_of m p = unat (denseToSparse (m_meta m ! p))"

text \<open>
  The invariants of the data model on the dense storage: items and metadata have the same
  length; every dense position names a sparse slot that is in use and points back at
  the position; every sparse slot in use points at a dense position whose metadata
  names it. The sizes fit the 32-bit index field, the sparse size below the end mark.
\<close>

definition dense_ok :: "'a handle_map \<Rightarrow> bool" where
  "dense_ok m =
     (length (m_meta m) = length (m_items m) \<and> length (m_items m) < 2 ^ 32 \<and>
      Suc (length (m_sparseIds m)) < 2 ^ 32 \<and>
      (\<forall>p < length (m_items m).
         slot_of m p < length (m_sparseIds m) \<and>
         free (m_sparseIds m ! slot_of m p) = 0 \<and>
         index (m_sparseIds m ! slot_of m p) = of_nat p) \<and>
      (\<forall>k < length (m_sparseIds m).
         free (m_sparseIds m ! k) = 0 \<longrightarrow>
         unat (index (m_sparseIds m ! k)) < length (m_items m) \<and>
         slot_of m (unat (index (m_sparseIds m ! k))) = k))"

text \<open>
  A handle is live when \<open>isValid\<close> accepts it and its slot is in use (\<open>isValid\<close> does
  not read the free bit).
\<close>

definition live :: "'a handle_map \<Rightarrow> Id_T \<Rightarrow> bool" where
  "live m h = (isValid m h \<and> free (m_sparseIds m ! unat (index h)) = 0)"

text \<open>The third handle of a container of type id 3.\<close>

definition handle_2 :: Id_T where
  "handle_2 = \<lparr>index = 2, generation = 1, typeId = 3, free = 0\<rparr>"

text \<open>
  The container of type id 3 after \<open>insert\<close> of 10, 20, 30, 40, 50 and \<open>erase\<close> of the
  first handle: slot 0 is in the free-list.
\<close>

definition four_left :: "int handle_map" where
  "four_left =
     \<lparr>m_freeListFront = 0, m_freeListBack = 0, m_itemTypeId = 3,
      m_fragmented = 1,
      m_sparseIds = [\<lparr>index = sentinel, generation = 2, typeId = 3, free = 1\<rparr>,
                     \<lparr>index = 1, generation = 1, typeId = 3, free = 0\<rparr>,
                     \<lparr>index = 2, generation = 1, typeId = 3, free = 0\<rparr>,
                     \<lparr>index = 3, generation = 1, typeId = 3, free = 0\<rparr>,
                     \<lparr>index = 0, generation = 1, typeId = 3, free = 0\<rparr>],
      m_items = [50, 20, 30, 40],
      m_meta = [\<lparr>denseToSparse = 4\<rparr>, \<lparr>denseToSparse = 1\<rparr>, \<lparr>denseToSparse = 2\<rparr>,
                \<lparr>denseToSparse = 3\<rparr>],
      m_capacity = 8\<rparr>"

text \<open>
  One round of the inner loop of the standard implementation, lines 281 to 283: the item
  and the metadata at \<open>j\<close> are moved to \<open>j + 1\<close>, and the sparse entry of the moved item is
  pointed at \<open>j + 1\<close>.
\<close>

definition shift_step :: "'a handle_map \<Rightarrow> nat \<Rightarrow> 'a handle_map" where
  "shift_step m j =
     set_sparse_index
       (m\<lparr>m_items := (m_items m)[Suc j := m_items m ! j],
          m_meta := (m_meta m)[Suc j := m_meta m ! j]\<rparr>)
       (slot_of m j) (Suc j)"





text \<open>The part of the dense sequence before position \<open>i\<close> has no adjacent pair out of order.\<close>

definition prefix_ordered :: "'a Compare \<Rightarrow> 'a list \<Rightarrow> nat \<Rightarrow> bool" where
  "prefix_ordered cmp xs i = successively (\<lambda>prev next. \<not> cmp prev next) (take i xs)"



section \<open>Evaluation of concrete sequences\<close>

lemmas run_defs =
  insert_item_def erase_def new_handle_map_def freeListEmpty_def push_back_item_def
  isValid_def swap_with_back_def Let_def

text \<open>
  The invariant does hold after the scenario of the specification: three inserts and
  the erase of the middle item.
\<close>

lemma free_list_ok_example:
  "(case run (new_handle_map 3 0)
           [Insert (10::int), Insert 20, Insert 30,
            Erase \<lparr>index = 1, generation = 1, typeId = 3, free = 0\<rparr>] of
      Inl e \<Rightarrow> False
    | Inr (m, outs) \<Rightarrow> free_list_ok m \<and> m_items m = [10, 30])"
  by (simp add: run_defs free_list_ok_def)

text \<open>
  Claim C1 (free-list invariant in every reachable state) fails on the code. Erasing
  the item that is last in dense storage while more than one item is stored takes the
  branch guarded by \<open>m_items.size() > 1\<close>, swaps the item with itself, and then
  "fixes" the sparse entry named by its own metadata: the entry just pushed to the
  free-list gets its end mark overwritten by its old dense position. After two inserts
  and the erase of the second handle, slot 1 is free and links to itself; the walk from
  the front never reaches the end mark.
\<close>

theorem erase_last_item_breaks_free_list:
  "(case run (new_handle_map 3 0)
           [Insert (10::int), Insert 20,
            Erase \<lparr>index = 1, generation = 1, typeId = 3, free = 0\<rparr>] of
      Inl e \<Rightarrow> False
    | Inr (m, outs) \<Rightarrow>
        outs = [Handle \<lparr>index = 0, generation = 1, typeId = 3, free = 0\<rparr>,
                Handle \<lparr>index = 1, generation = 1, typeId = 3, free = 0\<rparr>, Count 1] \<and>
        m_freeListFront m = 1 \<and> m_freeListBack m = 1 \<and>
        m_sparseIds m ! 1 = \<lparr>index = 1, generation = 2, typeId = 3, free = 1\<rparr> \<and>
        free_list_walk (length (m_sparseIds m)) (m_sparseIds m) (m_freeListFront m) = None \<and>
        \<not> free_list_ok m)"
  by (simp add: run_defs free_list_ok_def)

text \<open>
  Claim C2 (every valid handle resolves to the last value written for it; the dense
  storage holds exactly the items not erased) fails on the code, from the same defect.
  After the erase above the free-list front stays at slot 1, so the next two inserts
  both pop slot 1 and both return the handle with index 1 and generation 2. The handle
  returned for 30 was never erased and is valid, yet it resolves to 40; three items are
  stored for two distinct valid handles.
\<close>

theorem handle_aliased_after_erase_last:
  "(case run (new_handle_map 3 0)
           [Insert (10::int), Insert 20,
            Erase \<lparr>index = 1, generation = 1, typeId = 3, free = 0\<rparr>,
            Insert 30, Insert 40] of
      Inl e \<Rightarrow> False
    | Inr (m, outs) \<Rightarrow>
        outs = [Handle \<lparr>index = 0, generation = 1, typeId = 3, free = 0\<rparr>,
                Handle \<lparr>index = 1, generation = 1, typeId = 3, free = 0\<rparr>, Count 1,
                Handle \<lparr>index = 1, generation = 2, typeId = 3, free = 0\<rparr>,
                Handle \<lparr>index = 1, generation = 2, typeId = 3, free = 0\<rparr>] \<and>
        isValid m \<lparr>index = 1, generation = 2, typeId = 3, free = 0\<rparr> \<and>
        at m \<lparr>index = 1, generation = 2, typeId = 3, free = 0\<rparr> = Inr 40 \<and>
        m_items m = [10, 30, 40] \<and> size_hm m = 3 \<and>
        map denseToSparse (m_meta m) = [0, 1, 1])"
  by (simp add: run_defs at_def getInnerIndex_def size_hm_def)


lemma run_reachable:
  "reachable m \<Longrightarrow> run m cs = Inr (m', outs) \<Longrightarrow> reachable m'"
proof (induction cs arbitrary: m outs)
  case Nil
  then show ?case by simp
next
  case (Cons c cs)
  from Cons.prems(2) obtain m1 out outs1 where
    c: "call_op m c = Inr (m1, out)" and r: "run m1 cs = Inr (m', outs1)"
    by (auto split: sum.splits)
  from Cons.prems(1) c have "reachable m1" by (rule reachable.step)
  from Cons.IH [OF this r] show ?case .
qed

lemma two_items_run:
  "run (new_handle_map 3 0) [Insert 10, Insert 20] =
     Inr (two_items, [Handle handle_0, Handle handle_1])"
  by (simp add: run_defs two_items_def handle_0_def handle_1_def)

lemma two_items_reachable: "reachable two_items"
  using run_reachable [OF reachable.fresh two_items_run] .


section \<open>Erase: validity, generations, batches\<close>

lemma erase_invalid: "\<not> isValid m h \<Longrightarrow> erase m h = Inr (m, 0)"
  by (simp add: erase_def)

lemma generation_index_update [simp]:
  "generation ((ids[k := (ids ! k)\<lparr>index := v\<rparr>]) ! j) = generation (ids ! j)"
proof (cases "k < length ids")
  case True
  then show ?thesis by (cases "j = k") (simp_all add: nth_list_update)
next
  case False
  then have "length ids \<le> k" by simp
  then show ?thesis by (simp only: list_update_beyond)
qed

lemma butlast_short: "\<not> Suc 0 < length xs \<Longrightarrow> butlast xs = []"
  by (cases xs) (auto split: if_splits)


lemma erase_valid_state:
  assumes "isValid m h" and "erase m h = Inr (m', c)"
  shows "c = 1 \<and> length (m_sparseIds m') = length (m_sparseIds m) \<and>
         m_itemTypeId m' = m_itemTypeId m \<and>
         length (m_items m') = length (m_items m) - 1"
  using assms
  by (auto simp: erase_def Let_def freeListEmpty_def swap_with_back_def butlast_short
           split: if_splits)









section \<open>Reachable states\<close>

lemma defragment_loop_length:
  "defragment_loop tc cmp maxSwaps m i swaps = Inr (m', i', swaps') \<Longrightarrow>
   length (m_items m') = length (m_items m) \<and> length (m_meta m') = length (m_meta m) \<and>
   length (m_sparseIds m') = length (m_sparseIds m) \<and>
   i \<le> i' \<and> (i' \<le> length (m_items m) \<or> i' = i)"
proof (induction tc cmp maxSwaps m i swaps rule: defragment_loop.induct)
  case (1 tc cmp maxSwaps m i swaps)
  show ?case
  proof (cases "i < length (m_items m) \<and> (maxSwaps = 0 \<or> swaps < maxSwaps)")
    case False
    with "1.prems" show ?thesis
      by (simp add: defragment_loop.simps [of tc cmp maxSwaps m i swaps])
  next
    case True
    with "1.prems" obtain m1 swaps1 where
      b: "defragment_body tc cmp maxSwaps m i swaps = Inr (m1, swaps1)" and
      l: "defragment_loop tc cmp maxSwaps m1 (i + 1) swaps1 = Inr (m', i', swaps')"
      by (auto simp: defragment_loop.simps [of tc cmp maxSwaps m i swaps] split: sum.splits)
    from "1.IH" [OF True b refl l] defragment_body_length [OF b] True
    show ?thesis by auto
  qed
qed

lemma defragment_lengths:
  assumes "defragment tc cmp maxSwaps m = Inr (m', n)"
  shows "length (m_items m') = length (m_items m) \<and> length (m_sparseIds m') = length (m_sparseIds m)"
proof (cases "m_fragmented m = 0")
  case True
  with assms show ?thesis by (simp add: defragment_def)
next
  case False
  with assms obtain m1 i where
    "defragment_loop tc cmp maxSwaps m 1 0 = Inr (m1, i, n)"
    and "m' = (if i = length (m_items m1) then m1\<lparr>m_fragmented := 0\<rparr> else m1)"
    by (auto simp: defragment_def split: sum.splits)
  with defragment_loop_length [of tc cmp maxSwaps m 1 0 m1 i n] show ?thesis
    by (auto split: if_splits)
qed

lemma insert_item_nonempty:
  "insert_item m x = Inr (m', h) \<Longrightarrow> m_sparseIds m' \<noteq> []"
  by (auto simp: insert_item_def Let_def push_back_item_def split: if_splits)

lemma generate_n_covers:
  "generate_n m n x = Inr (m', hs) \<Longrightarrow> sparse_covers m \<Longrightarrow> sparse_covers m'"
proof (induction n arbitrary: m hs)
  case 0
  then show ?case by simp
next
  case (Suc n)
  from Suc.prems(1) obtain m1 h hs1 where
    i: "insert_item m x = Inr (m1, h)" and g: "generate_n m1 n x = Inr (m', hs1)"
    by (auto split: sum.splits)
  from insert_item_nonempty [OF i] have "sparse_covers m1" by (simp add: sparse_covers_def)
  with Suc.IH [OF g] show ?case .
qed

lemma erase_covers:
  assumes "erase m h = Inr (m', c)" and "sparse_covers m"
  shows "sparse_covers m'"
proof (cases "isValid m h")
  case True
  then have "m_sparseIds m \<noteq> []" by (auto simp: isValid_def split: if_splits)
  with erase_valid_state [OF True assms(1)] show ?thesis
    by (auto simp: sparse_covers_def)
next
  case False
  with assms show ?thesis by (simp add: erase_invalid)
qed

lemma eraseItems_covers:
  "eraseItems m hs = Inr (m', c) \<Longrightarrow> sparse_covers m \<Longrightarrow> sparse_covers m'"
proof (induction hs arbitrary: m c)
  case Nil
  then show ?case by simp
next
  case (Cons h hs)
  from Cons.prems(1) obtain m1 c1 c2 where
    e: "erase m h = Inr (m1, c1)" and r: "eraseItems m1 hs = Inr (m', c2)"
    by (auto split: sum.splits)
  from Cons.IH [OF r erase_covers [OF e Cons.prems(2)]] show ?case .
qed

lemma clear_covers: "sparse_covers m \<Longrightarrow> sparse_covers (clear m)"
  by (auto simp: clear_def Let_def sparse_covers_def)

lemma call_op_covers:
  assumes "call_op m c = Inr (m', out)" and "sparse_covers m"
  shows "sparse_covers m'"
proof (cases c)
  case (Insert x)
  with assms(1) obtain h where "insert_item m x = Inr (m', h)"
    by (cases "insert_item m x") auto
  from insert_item_nonempty [OF this] show ?thesis by (simp add: sparse_covers_def)
next
  case (EmplaceItems n x)
  with assms(1) obtain hs where e: "emplaceItems m n x = Inr (m', hs)"
    by (cases "emplaceItems m n x") auto
  have "sparse_covers (m\<lparr>m_fragmented := 1,
             m_capacity := max (m_capacity m) (length (m_items m) + nat n)\<rparr>)"
    using assms(2) by (simp add: sparse_covers_def)
  with e show ?thesis
    by (auto simp: emplaceItems_def split: if_splits dest: generate_n_covers)
next
  case (Erase h)
  with assms(1) obtain k where "erase m h = Inr (m', k)"
    by (cases "erase m h") auto
  from erase_covers [OF this assms(2)] show ?thesis .
next
  case (EraseItems hs)
  with assms(1) obtain k where "eraseItems m hs = Inr (m', k)"
    by (cases "eraseItems m hs") auto
  from eraseItems_covers [OF this assms(2)] show ?thesis .
next
  case Clear
  with assms show ?thesis by (auto simp: clear_covers)
next
  case Reset
  with assms show ?thesis by (auto simp: reset_def sparse_covers_def)
next
  case (Defragment tc cmp k)
  with assms(1) obtain n where "defragment tc cmp k m = Inr (m', n)"
    by (cases "defragment tc cmp k m") auto
  from defragment_lengths [OF this] assms(2) show ?thesis
    unfolding sparse_covers_def by (metis length_0_conv)
qed

lemma reachable_covers: "reachable m \<Longrightarrow> sparse_covers m"
proof (induction rule: reachable.induct)
  case (fresh itemTypeId reserveCount)
  show ?case by (simp add: sparse_covers_def new_handle_map_def)
next
  case (step m c m' out)
  then show ?case by (auto intro: call_op_covers)
qed

section \<open>clear and reset\<close>

lemma clear_loop_length [simp]: "length (clear_loop i xs) = length xs"
  by (induction xs arbitrary: i) simp_all


lemma unat_of_nat_32: "n < 2 ^ 32 \<Longrightarrow> unat (of_nat n :: 32 word) = n"
  by (simp add: unat_of_nat)

lemma of_nat_32_eq_0: "n < 2 ^ 32 \<Longrightarrow> (of_nat n :: 32 word) = 0 \<longleftrightarrow> n = 0"
  using unat_of_nat_32 [of n] unat_eq_zero [of "of_nat n :: 32 word"] by auto

lemma clear_nonempty:
  assumes n: "length (m_sparseIds m) < 2 ^ 32" and ne: "m_sparseIds m \<noteq> []"
  shows "clear m =
     m\<lparr>m_items := [], m_meta := [], m_freeListFront := 0,
       m_freeListBack := of_nat (length (m_sparseIds m)) - 1, m_fragmented := 0,
       m_sparseIds := (clear_loop 0 (m_sparseIds m))
          [length (m_sparseIds m) - 1 :=
             (clear_loop 0 (m_sparseIds m) ! (length (m_sparseIds m) - 1))\<lparr>index := sentinel\<rparr>]\<rparr>"
proof -
  let ?n = "length (m_sparseIds m)"
  have pos: "0 < ?n" using ne by simp
  have u: "unat (of_nat ?n :: 32 word) = ?n" using n by (rule unat_of_nat_32)
  have nz: "(of_nat ?n :: 32 word) \<noteq> 0" using n pos by (simp add: of_nat_32_eq_0)
  then have gt: "(of_nat ?n :: 32 word) > 0" by (simp add: word_greater_zero_iff)
  have "unat ((of_nat ?n :: 32 word) - 1) = ?n - 1"
    using nz u by (simp add: unat_minus_one)
  with gt u show ?thesis
    by (simp add: clear_def Let_def)
qed

lemma clear_empty: "m_sparseIds m = [] \<Longrightarrow> clear m = m"
  by (simp add: clear_def)









section \<open>defragment on a container that is not marked fragmented\<close>

lemma defragment_empty:
  "m_items m = [] \<Longrightarrow> defragment tc cmp maxSwaps m = Inr (m, 0)"
  by (simp add: defragment_def defragment_loop.simps [of tc cmp maxSwaps m "Suc 0" 0])

lemma defragment_unflagged:
  "m_fragmented m = 0 \<Longrightarrow> defragment tc cmp maxSwaps m = Inr (m, 0)"
  by (simp add: defragment_def)

text \<open>
  Claim C10: \<open>defragment\<close> returns 0 and leaves the state as it is, for every
  predicate, budget and implementation, when the container is not marked fragmented;
  that is so after construction, after \<open>reset\<close>, after \<open>clear\<close>, and after a
  \<open>defragment\<close> whose loop ended at the end of the dense storage. (After a \<open>clear\<close>
  or a pass over an empty container the mark may still be set; then there is no item
  and the call changes nothing either.)
\<close>

theorem defragment_without_changes_is_noop:
  "(m_fragmented m = 0 \<longrightarrow> defragment tc cmp maxSwaps m = Inr (m, 0)) \<and>
   defragment tc cmp maxSwaps (new_handle_map itemTypeId reserveCount) =
     Inr (new_handle_map itemTypeId reserveCount, 0) \<and>
   defragment tc cmp maxSwaps (reset m) = Inr (reset m, 0) \<and>
   (reachable m \<and> length (m_sparseIds m) < 2 ^ 32 \<longrightarrow>
      defragment tc cmp maxSwaps (clear m) = Inr (clear m, 0)) \<and>
   (defragment_loop tc' cmp' maxSwaps' m 1 0 = Inr (m1, i, n) \<and> \<not> i < length (m_items m1) \<longrightarrow>
      (\<exists>m'. defragment tc' cmp' maxSwaps' m = Inr (m', if m_fragmented m = 0 then 0 else n) \<and>
            defragment tc cmp maxSwaps m' = Inr (m', 0)))"
proof (intro conjI impI)
  assume "m_fragmented m = 0"
  then show "defragment tc cmp maxSwaps m = Inr (m, 0)" by (rule defragment_unflagged)
next
  show "defragment tc cmp maxSwaps (new_handle_map itemTypeId reserveCount) =
     Inr (new_handle_map itemTypeId reserveCount, 0)"
    by (simp add: defragment_unflagged new_handle_map_def)
next
  show "defragment tc cmp maxSwaps (reset m) = Inr (reset m, 0)"
    by (simp add: defragment_unflagged reset_def)
next
  assume a: "reachable m \<and> length (m_sparseIds m) < 2 ^ 32"
  show "defragment tc cmp maxSwaps (clear m) = Inr (clear m, 0)"
  proof (cases "m_sparseIds m = []")
    case True
    with a reachable_covers [of m] have "m_items m = []" by (simp add: sparse_covers_def)
    with True show ?thesis by (simp add: clear_empty defragment_empty)
  next
    case False
    with a have "m_fragmented (clear m) = 0" by (simp add: clear_nonempty)
    then show ?thesis by (rule defragment_unflagged)
  qed
next
  assume a: "defragment_loop tc' cmp' maxSwaps' m 1 0 = Inr (m1, i, n) \<and> \<not> i < length (m_items m1)"
  then have l: "defragment_loop tc' cmp' maxSwaps' m 1 0 = Inr (m1, i, n)"
    and e: "\<not> i < length (m_items m1)" by simp_all
  show "\<exists>m'. defragment tc' cmp' maxSwaps' m = Inr (m', if m_fragmented m = 0 then 0 else n) \<and>
            defragment tc cmp maxSwaps m' = Inr (m', 0)"
  proof (cases "m_fragmented m = 0")
    case True
    then show ?thesis by (simp add: defragment_unflagged)
  next
    case False
    from defragment_loop_length [OF l] e have
      "i = length (m_items m1) \<or> length (m_items m1) = 0" by linarith
    then have c: "i = length (m_items m1) \<or> m_items m1 = []" by simp
    let ?m' = "if i = length (m_items m1) then m1\<lparr>m_fragmented := 0\<rparr> else m1"
    from False l have d: "defragment tc' cmp' maxSwaps' m = Inr (?m', n)"
      by (simp add: defragment_def)
    have "defragment tc cmp maxSwaps ?m' = Inr (?m', 0)"
    proof (cases "i = length (m_items m1)")
      case True
      then show ?thesis by (simp add: defragment_unflagged)
    next
      case False
      with c show ?thesis by (simp add: defragment_empty)
    qed
    with d False show ?thesis by auto
  qed
qed

theorem defragment_without_changes_is_noop_witness:
  "m_fragmented (clear two_items) = 0 \<and> reachable two_items \<and>
   length (m_sparseIds two_items) < 2 ^ 32 \<and>
   defragment False (<) 0 (clear two_items) = Inr (clear two_items, 0) \<and>
   defragment_loop True (>) 0 two_items 1 0 = Inr (two_items, 2, 0) \<and>
   \<not> 2 < length (m_items two_items) \<and>
   defragment True (>) 0 two_items = Inr (two_items\<lparr>m_fragmented := 0\<rparr>, 0) \<and>
   defragment False (<) 0 (two_items\<lparr>m_fragmented := 0\<rparr>) =
     Inr (two_items\<lparr>m_fragmented := 0\<rparr>, 0)"
proof -
  have n: "length (m_sparseIds two_items) < 2 ^ 32" by (simp add: two_items_def)
  have ne: "m_sparseIds two_items \<noteq> []" by (simp add: two_items_def)
  have f: "m_fragmented (clear two_items) = 0"
    by (simp add: clear_nonempty [OF n ne])
  have l: "defragment_loop True (>) 0 two_items 1 0 = Inr (two_items, 2, 0)"
    by code_simp
  have e: "\<not> 2 < length (m_items two_items)" by (simp add: two_items_def)
  have d: "defragment True (>) 0 two_items = Inr (two_items\<lparr>m_fragmented := 0\<rparr>, 0)"
    using l by (simp add: defragment_def two_items_def)
  from defragment_without_changes_is_noop
         [where m = two_items and tc = False and cmp = "(<)" and maxSwaps = 0 and
            tc' = True and cmp' = "(>)" and maxSwaps' = 0 and ?m1.0 = two_items and
            i = 2 and n = 0]
       defragment_without_changes_is_noop
         [where m = "clear two_items" and tc = False and cmp = "(<)" and maxSwaps = 0]
       f n l e d two_items_reachable
  show ?thesis by simp
qed

section \<open>Comparison of handles\<close>

lemma bit_below: "(x::nat) < 2 ^ n \<Longrightarrow> bit x m \<Longrightarrow> m < n"
proof -
  assume a: "x < 2 ^ n" and b: "bit x m"
  from a have "take_bit n x = x" by (rule take_bit_nat_eq_self)
  then have "bit (take_bit n x) m" using b by simp
  then show "m < n" by (simp add: bit_take_bit_iff)
qed

lemma or_push_bit_add:
  assumes "(x::nat) < 2 ^ n"
  shows "x OR push_bit n y = x + 2 ^ n * y"
proof -
  have "x + push_bit n y = x OR push_bit n y"
  proof (rule disjunctive_add)
    fix m
    show "\<not> bit x m \<or> \<not> bit (push_bit n y) m"
      using bit_below [OF assms, of m] by (auto simp: bit_push_bit_iff)
  qed
  then show ?thesis by (simp add: push_bit_eq_mult mult.commute)
qed

lemma unat_push_bit_ucast:
  fixes w :: "'a::len word"
  assumes "LENGTH('a) + n \<le> 64"
  shows "unat (push_bit n (ucast w) :: 64 word) = 2 ^ n * unat w"
proof -
  have w: "unat w < 2 ^ LENGTH('a)" by (rule unsigned_less)
  also have "(2::nat) ^ LENGTH('a) \<le> 2 ^ 64"
    using assms by (intro power_increasing) simp_all
  finally have "unat w < 2 ^ 64" .
  then have u: "unat (ucast w :: 64 word) = unat w"
    by (simp add: unsigned_ucast_eq take_bit_nat_eq_self)
  have "2 ^ n * unat w < 2 ^ n * 2 ^ LENGTH('a)"
    using w by simp
  also have "\<dots> = (2::nat) ^ (LENGTH('a) + n)" by (simp add: power_add mult.commute)
  also have "\<dots> \<le> 2 ^ 64" using assms by (intro power_increasing) simp_all
  finally have b: "2 ^ n * unat w < 2 ^ 64" .
  have "unat (push_bit n (ucast w) :: 64 word) =
        take_bit LENGTH(64) (push_bit n (unat (ucast w :: 64 word)))"
    by (rule unsigned_push_bit_eq)
  also have "\<dots> = take_bit 64 (2 ^ n * unat w)"
    by (simp add: u push_bit_eq_mult mult.commute)
  also have "\<dots> = 2 ^ n * unat w" using b by (rule take_bit_nat_eq_self)
  finally show ?thesis .
qed

lemma unat_id_value:
  "unat (id_value a) =
     unat (index a) + 2 ^ 32 * unat (generation a) + 2 ^ 48 * unat (typeId a) +
     2 ^ 63 * unat (free a)"
proof -
  have i: "unat (index a) < 2 ^ 32" using unsigned_less [of "index a"] by simp
  have g: "unat (generation a) < 2 ^ 16" using unsigned_less [of "generation a"] by simp
  have t: "unat (typeId a) < 2 ^ 15" using unsigned_less [of "typeId a"] by simp
  have f: "unat (free a) < 2" using unsigned_less [of "free a"] by simp
  have A: "unat (ucast (index a) :: 64 word) = unat (index a)"
    using i by (simp add: unsigned_ucast_eq take_bit_nat_eq_self)
  have B: "unat (push_bit 32 (ucast (generation a)) :: 64 word) = push_bit 32 (unat (generation a))"
    by (subst unat_push_bit_ucast) (simp_all add: push_bit_eq_mult)
  have C: "unat (push_bit 48 (ucast (typeId a)) :: 64 word) = push_bit 48 (unat (typeId a))"
    by (subst unat_push_bit_ucast) (simp_all add: push_bit_eq_mult)
  have D: "unat (push_bit 63 (ucast (free a)) :: 64 word) = push_bit 63 (unat (free a))"
    by (subst unat_push_bit_ucast) (simp_all add: push_bit_eq_mult)
  have "unat (id_value a) =
      ((unat (index a) OR push_bit 32 (unat (generation a))) OR push_bit 48 (unat (typeId a)))
        OR push_bit 63 (unat (free a))"
    by (simp only: id_value_def unsigned_or_eq A B C D or.assoc)
  also have "unat (index a) OR push_bit 32 (unat (generation a)) =
      unat (index a) + 2 ^ 32 * unat (generation a)"
    using i by (rule or_push_bit_add)
  also have "(unat (index a) + 2 ^ 32 * unat (generation a)) OR push_bit 48 (unat (typeId a)) =
      unat (index a) + 2 ^ 32 * unat (generation a) + 2 ^ 48 * unat (typeId a)"
    using i g by (intro or_push_bit_add) simp
  also have "(unat (index a) + 2 ^ 32 * unat (generation a) + 2 ^ 48 * unat (typeId a))
        OR push_bit 63 (unat (free a)) =
      unat (index a) + 2 ^ 32 * unat (generation a) + 2 ^ 48 * unat (typeId a) +
      2 ^ 63 * unat (free a)"
    using i g t by (intro or_push_bit_add) simp
  finally show ?thesis .
qed


lemma lex_step_less:
  fixes B :: nat
  assumes "x1 < B" and "y1 < B"
  shows "x1 + B * x2 < y1 + B * y2 \<longleftrightarrow> x2 < y2 \<or> (x2 = y2 \<and> x1 < y1)"
proof (cases x2 y2 rule: linorder_cases)
  case less
  then have "B * (x2 + 1) \<le> B * y2" by (intro mult_le_mono2) simp
  with assms less show ?thesis by (simp add: algebra_simps)
next
  case equal
  then show ?thesis by simp
next
  case greater
  then have "B * (y2 + 1) \<le> B * x2" by (intro mult_le_mono2) simp
  with assms greater show ?thesis by (simp add: algebra_simps)
qed

lemma lex_step_eq:
  fixes B :: nat
  assumes "x1 < B" and "y1 < B"
  shows "x1 + B * x2 = y1 + B * y2 \<longleftrightarrow> x2 = y2 \<and> x1 = y1"
  using lex_step_less [OF assms, of x2 y2] lex_step_less [OF assms(2,1), of y2 x2]
  by (cases x2 y2 rule: linorder_cases; cases x1 y1 rule: linorder_cases) auto

lemma id_value_bounds:
  "unat (index a) < 2 ^ 32"
  "unat (index a) + 2 ^ 32 * unat (generation a) < 2 ^ 48"
  "unat (index a) + 2 ^ 32 * unat (generation a) + 2 ^ 48 * unat (typeId a) < 2 ^ 63"
proof -
  have i: "unat (index a) < 2 ^ 32" using unsigned_less [of "index a"] by simp
  have g: "unat (generation a) < 2 ^ 16" using unsigned_less [of "generation a"] by simp
  have t: "unat (typeId a) < 2 ^ 15" using unsigned_less [of "typeId a"] by simp
  show "unat (index a) < 2 ^ 32" by (rule i)
  show "unat (index a) + 2 ^ 32 * unat (generation a) < 2 ^ 48" using i g by simp
  show "unat (index a) + 2 ^ 32 * unat (generation a) + 2 ^ 48 * unat (typeId a) < 2 ^ 63"
    using i g t by simp
qed

lemma id_less_lex: "id_less a b \<longleftrightarrow> lex_less a b"
  unfolding id_less_def lex_less_def word_less_nat_alt unat_id_value word_unat_eq_iff
  by (simp only: lex_step_less [OF id_value_bounds(3) id_value_bounds(3)]
        lex_step_less [OF id_value_bounds(2) id_value_bounds(2)]
        lex_step_less [OF id_value_bounds(1) id_value_bounds(1)]
        lex_step_eq [OF id_value_bounds(2) id_value_bounds(2)]
        lex_step_eq [OF id_value_bounds(1) id_value_bounds(1)])

lemma id_eq_fields:
  "id_eq a b \<longleftrightarrow>
     index a = index b \<and> generation a = generation b \<and> typeId a = typeId b \<and> free a = free b"
  unfolding id_eq_def word_unat_eq_iff unat_id_value
  by (simp only: lex_step_eq [OF id_value_bounds(3) id_value_bounds(3)]
        lex_step_eq [OF id_value_bounds(2) id_value_bounds(2)]
        lex_step_eq [OF id_value_bounds(1) id_value_bounds(1)]) auto

text \<open>
  Claim C8: equality and inequality on the packed 64-bit value are equality and
  inequality of the four fields; \<open><\<close> and \<open>>\<close> on the packed value are the
  lexicographic order with priority free, typeId, generation, index, and that order is
  a strict total order.
\<close>

theorem id_comparisons:
  fixes a b c :: Id_T
  shows
  "(id_eq a b \<longleftrightarrow> a = b) \<and>
   (id_eq a b \<longleftrightarrow>
      index a = index b \<and> generation a = generation b \<and> typeId a = typeId b \<and>
      free a = free b) \<and>
   (id_neq a b \<longleftrightarrow> a \<noteq> b) \<and>
   (id_less a b \<longleftrightarrow> lex_less a b) \<and>
   (id_greater a b \<longleftrightarrow> lex_less b a) \<and>
   \<not> id_less a a \<and>
   (id_less a b \<and> id_less b c \<longrightarrow> id_less a c) \<and>
   (id_less a b \<or> a = b \<or> id_less b a)"
proof -
  have e: "id_eq a b \<longleftrightarrow> a = b"
    by (cases a; cases b) (simp add: id_eq_fields)
  have n: "id_neq a b \<longleftrightarrow> a \<noteq> b"
    using e by (simp add: id_neq_def id_eq_def)
  have g: "id_greater a b \<longleftrightarrow> lex_less b a"
    using id_less_lex [of b a] by (simp add: id_greater_def id_less_def)
  have tot: "id_less a b \<or> a = b \<or> id_less b a"
    using e by (auto simp: id_less_def id_eq_def)
  have tr: "id_less a b \<and> id_less b c \<longrightarrow> id_less a c"
    by (auto simp: id_less_def)
  show ?thesis
    using e id_eq_fields [of a b] n id_less_lex [of a b] g tot tr
    by (simp add: id_less_def)
qed

theorem id_comparisons_witness:
  "id_less \<lparr>index = 7, generation = 2, typeId = 3, free = 0\<rparr>
           \<lparr>index = 5, generation = 1, typeId = 4, free = 0\<rparr> \<and>
   id_less \<lparr>index = 5, generation = 1, typeId = 4, free = 0\<rparr>
           \<lparr>index = 0, generation = 0, typeId = 0, free = 1\<rparr> \<and>
   id_less \<lparr>index = 7, generation = 2, typeId = 3, free = 0\<rparr>
           \<lparr>index = 0, generation = 0, typeId = 0, free = 1\<rparr> \<and>
   id_greater \<lparr>index = 0, generation = 0, typeId = 0, free = 1\<rparr>
              \<lparr>index = 7, generation = 2, typeId = 3, free = 0\<rparr> \<and>
   id_neq \<lparr>index = 7, generation = 2, typeId = 3, free = 0\<rparr>
          \<lparr>index = 5, generation = 1, typeId = 4, free = 0\<rparr>"
  using id_comparisons [of "\<lparr>index = 7, generation = 2, typeId = 3, free = 0\<rparr>"
          "\<lparr>index = 5, generation = 1, typeId = 4, free = 0\<rparr>"
          "\<lparr>index = 0, generation = 0, typeId = 0, free = 1\<rparr>"]
        id_comparisons [of "\<lparr>index = 0, generation = 0, typeId = 0, free = 1\<rparr>"
          "\<lparr>index = 7, generation = 2, typeId = 3, free = 0\<rparr>"
          "\<lparr>index = 5, generation = 1, typeId = 4, free = 0\<rparr>"]
        id_comparisons [of "\<lparr>index = 5, generation = 1, typeId = 4, free = 0\<rparr>"
          "\<lparr>index = 0, generation = 0, typeId = 0, free = 1\<rparr>"
          "\<lparr>index = 7, generation = 2, typeId = 3, free = 0\<rparr>"]
  by (simp add: lex_less_def)

section \<open>Generations on reuse of a slot\<close>













section \<open>The two implementations of defragment under a swap budget\<close>

lemma three_items_run:
  "run (new_handle_map 3 0) [Insert 2, Insert 3, Insert 1] =
     Inr (three_items,
          [Handle \<lparr>index = 0, generation = 1, typeId = 3, free = 0\<rparr>,
           Handle \<lparr>index = 1, generation = 1, typeId = 3, free = 0\<rparr>,
           Handle \<lparr>index = 2, generation = 1, typeId = 3, free = 0\<rparr>])"
  by (simp add: run_defs three_items_def)


text \<open>
  Claim C9 (the two implementations give the same items, metadata and sparse table for
  every budget) fails on the code. The trivially copyable implementation moves an item
  all the way to its place and counts one swap for it; the standard implementation
  counts every position an item is moved and stops in the middle when the budget is
  used up. On the items 2, 3, 1 with \<open>comp(a, b) = a > b\<close> and \<open>maxSwaps = 1\<close> the first
  ends with 1, 2, 3 and the second with 2, 1, 3; the second also takes the fragmented
  mark off, although the items are not in order.
\<close>

theorem defragment_paths_differ_under_budget:
  "defragment True (>) 1 three_items =
     Inr (three_items
            \<lparr>m_items := [1, 2, 3],
              m_meta := [\<lparr>denseToSparse = 2\<rparr>, \<lparr>denseToSparse = 0\<rparr>, \<lparr>denseToSparse = 1\<rparr>],
              m_sparseIds := [\<lparr>index = 1, generation = 1, typeId = 3, free = 0\<rparr>,
                              \<lparr>index = 2, generation = 1, typeId = 3, free = 0\<rparr>,
                              \<lparr>index = 0, generation = 1, typeId = 3, free = 0\<rparr>],
              m_fragmented := 0\<rparr>, 1) \<and>
   defragment False (>) 1 three_items =
     Inr (three_items
            \<lparr>m_items := [2, 1, 3],
              m_meta := [\<lparr>denseToSparse = 0\<rparr>, \<lparr>denseToSparse = 2\<rparr>, \<lparr>denseToSparse = 1\<rparr>],
              m_sparseIds := [\<lparr>index = 0, generation = 1, typeId = 3, free = 0\<rparr>,
                              \<lparr>index = 2, generation = 1, typeId = 3, free = 0\<rparr>,
                              \<lparr>index = 1, generation = 1, typeId = 3, free = 0\<rparr>],
              m_fragmented := 0\<rparr>, 1)"
  by code_simp

section \<open>Erase of a live handle, and the order of reuse\<close>

lemma of_nat_32_inj: "p < 2 ^ 32 \<Longrightarrow> q < 2 ^ 32 \<Longrightarrow> (of_nat p :: 32 word) = of_nat q \<Longrightarrow> p = q"
  by (metis unat_of_nat_32)

lemma dense_okD:
  assumes "dense_ok m"
  shows "length (m_meta m) = length (m_items m)"
    and "length (m_items m) < 2 ^ 32"
    and "Suc (length (m_sparseIds m)) < 2 ^ 32"
    and "p < length (m_items m) \<Longrightarrow> slot_of m p < length (m_sparseIds m)"
    and "p < length (m_items m) \<Longrightarrow> free (m_sparseIds m ! slot_of m p) = 0"
    and "p < length (m_items m) \<Longrightarrow> index (m_sparseIds m ! slot_of m p) = of_nat p"
    and "k < length (m_sparseIds m) \<Longrightarrow> free (m_sparseIds m ! k) = 0 \<Longrightarrow>
         unat (index (m_sparseIds m ! k)) < length (m_items m)"
    and "k < length (m_sparseIds m) \<Longrightarrow> free (m_sparseIds m ! k) = 0 \<Longrightarrow>
         slot_of m (unat (index (m_sparseIds m ! k))) = k"
  using assms by (simp_all add: dense_ok_def)

lemma slot_of_inj:
  assumes "dense_ok m" and "p < length (m_items m)" and "q < length (m_items m)"
    and "slot_of m p = slot_of m q"
  shows "p = q"
proof -
  from dense_okD(6) [OF assms(1,2)] dense_okD(6) [OF assms(1,3)] assms(4)
  have "(of_nat p :: 32 word) = of_nat q" by simp
  moreover from dense_okD(2) [OF assms(1)] assms(2,3) have "p < 2 ^ 32" "q < 2 ^ 32" by simp_all
  ultimately show ?thesis by (metis of_nat_32_inj)
qed

lemma swap_with_back_nth:
  assumes "i < length v" and "q < length v - 1"
  shows "butlast (swap_with_back v i) ! q = (if q = i then last v else v ! q)"
  using assms by (simp add: swap_with_back_def nth_butlast nth_list_update)

lemma swap_with_back_at:
  assumes "i < length v"
  shows "swap_with_back v i ! i = last v"
proof -
  from assms have "v \<noteq> []" by auto
  with assms show ?thesis
    by (cases "i = length v - 1") (simp_all add: swap_with_back_def nth_list_update last_conv_nth)
qed

lemma swap_with_back_length [simp]: "length (swap_with_back v i) = length v"
  by (simp add: swap_with_back_def)

text \<open>The state after a successful erase, spelled out.\<close>

lemma erase_unfold:
  assumes v: "isValid m h"
    and bk: "m_freeListFront m = sentinel \<or> unat (m_freeListBack m) < length (m_sparseIds m)"
    and mt: "length (m_meta m) = length (m_items m)"
    and ls: "1 < length (m_items m) \<longrightarrow>
             unat (denseToSparse (last (m_meta m))) < length (m_sparseIds m)"
  shows "erase m h =
     Inr (let k = unat (index h); S = m_sparseIds m; p = unat (index (S ! k));
              S1 = S[k := (S ! k)\<lparr>free := 1, generation := generation (S ! k) + 1,
                                   index := sentinel\<rparr>];
              S2 = (if m_freeListFront m = sentinel then S1
                    else S1[unat (m_freeListBack m) :=
                            (S1 ! unat (m_freeListBack m))\<lparr>index := index h\<rparr>]);
              kl = unat (denseToSparse (last (m_meta m)));
              S3 = (if 1 < length (m_items m)
                    then S2[kl := (S2 ! kl)\<lparr>index := of_nat p\<rparr>] else S2)
          in m\<lparr>m_fragmented := 1,
               m_sparseIds := S3,
               m_freeListFront := (if m_freeListFront m = sentinel then index h
                                   else m_freeListFront m),
               m_freeListBack := index h,
               m_items := butlast (swap_with_back (m_items m) (unat (index (S ! k)))),
               m_meta := butlast (swap_with_back (m_meta m) (unat (index (S ! k))))\<rparr>, 1)"
proof -
  from v have p: "unat (index (m_sparseIds m ! unat (index h))) < length (m_items m)"
    by (auto simp: isValid_def Let_def split: if_splits)
  then have ne: "m_items m \<noteq> []" "m_meta m \<noteq> []" using mt by auto
  have sw1: "\<not> 1 < length (m_items m) \<Longrightarrow>
      butlast (swap_with_back (m_items m) (unat (index (m_sparseIds m ! unat (index h))))) = butlast (m_items m)"
    by (simp add: butlast_short)
  have sw2: "\<not> 1 < length (m_items m) \<Longrightarrow>
      butlast (swap_with_back (m_meta m) (unat (index (m_sparseIds m ! unat (index h))))) = butlast (m_meta m)"
    using mt by (simp add: butlast_short)
  show ?thesis
  proof (cases "1 < length (m_items m)")
    case True
    with v bk mt ls p ne show ?thesis
      by (simp add: erase_def Let_def freeListEmpty_def swap_with_back_at)
  next
    case False
    with v bk mt p ne sw1 sw2 show ?thesis
      by (simp add: erase_def Let_def freeListEmpty_def)
  qed
qed

lemma live_facts:
  assumes ok: "dense_ok m" and lv: "live m h"
  shows "unat (index h) < length (m_sparseIds m)"
    and "free (m_sparseIds m ! unat (index h)) = 0"
    and "unat (index (m_sparseIds m ! unat (index h))) < length (m_items m)"
    and "slot_of m (unat (index (m_sparseIds m ! unat (index h)))) = unat (index h)"
    and "ucast (typeId h) = m_itemTypeId m"
    and "generation h = generation (m_sparseIds m ! unat (index h))"
    and "index h \<noteq> sentinel"
proof -
  from lv show a: "unat (index h) < length (m_sparseIds m)"
    and b: "free (m_sparseIds m ! unat (index h)) = 0"
    and "unat (index (m_sparseIds m ! unat (index h))) < length (m_items m)"
    and "ucast (typeId h) = m_itemTypeId m"
    and "generation h = generation (m_sparseIds m ! unat (index h))"
    by (auto simp: live_def isValid_def Let_def split: if_splits)
  from dense_okD(8) [OF ok a b]
  show "slot_of m (unat (index (m_sparseIds m ! unat (index h)))) = unat (index h)" .
  from dense_okD(3) [OF ok] a have "unat (index h) \<noteq> unat (sentinel)" by simp
  then show "index h \<noteq> sentinel" by auto
qed

lemma free_index_update [simp]:
  "free ((ids[k := (ids ! k)\<lparr>index := v\<rparr>]) ! j) = free (ids ! j)"
proof (cases "k < length ids")
  case True
  then show ?thesis by (cases "j = k") (simp_all add: nth_list_update)
next
  case False
  then have "length ids \<le> k" by simp
  then show ?thesis by (simp only: list_update_beyond)
qed

lemma typeId_index_update [simp]:
  "typeId ((ids[k := (ids ! k)\<lparr>index := v\<rparr>]) ! j) = typeId (ids ! j)"
proof (cases "k < length ids")
  case True
  then show ?thesis by (cases "j = k") (simp_all add: nth_list_update)
next
  case False
  then have "length ids \<le> k" by simp
  then show ?thesis by (simp only: list_update_beyond)
qed

lemma index_index_update:
  "k < length ids \<Longrightarrow>
   index ((ids[k := (ids ! k)\<lparr>index := v\<rparr>]) ! j) = (if j = k then v else index (ids ! j))"
  by (simp add: nth_list_update)

lemma erase_live:
  assumes ok: "dense_ok m" and lv: "live m h"
    and fl: "m_freeListFront m = sentinel \<or>
             (unat (m_freeListBack m) < length (m_sparseIds m) \<and>
              free (m_sparseIds m ! unat (m_freeListBack m)) = 1)"
  shows "\<exists>m'. erase m h = Inr (m', 1) \<and> dense_ok m' \<and>
           length (m_sparseIds m') = length (m_sparseIds m) \<and>
           length (m_items m') = length (m_items m) - 1 \<and>
           m_itemTypeId m' = m_itemTypeId m \<and>
           m_freeListFront m' =
             (if m_freeListFront m = sentinel then index h else m_freeListFront m) \<and>
           m_freeListBack m' = index h \<and>
           free (m_sparseIds m' ! unat (index h)) = 1 \<and>
           generation (m_sparseIds m' ! unat (index h)) = generation h + 1 \<and>
           (\<forall>j < length (m_sparseIds m). j \<noteq> unat (index h) \<longrightarrow>
              free (m_sparseIds m' ! j) = free (m_sparseIds m ! j) \<and>
              generation (m_sparseIds m' ! j) = generation (m_sparseIds m ! j)) \<and>
           (m_freeListFront m \<noteq> sentinel \<longrightarrow>
              index (m_sparseIds m' ! unat (m_freeListBack m)) = index h) \<and>
           (\<forall>j < length (m_sparseIds m). free (m_sparseIds m ! j) = 1 \<longrightarrow>
              (m_freeListFront m = sentinel \<or> j \<noteq> unat (m_freeListBack m)) \<longrightarrow>
              m_sparseIds m' ! j = m_sparseIds m ! j)"
proof -
  define k where "k = unat (index h)"
  define S where "S = m_sparseIds m"
  define n where "n = length (m_items m)"
  define p where "p = unat (index (S ! k))"
  define b where "b = unat (m_freeListBack m)"
  define kl where "kl = unat (denseToSparse (last (m_meta m)))"
  define S1 where "S1 = S[k := (S ! k)\<lparr>free := 1, generation := generation (S ! k) + 1,
                                   index := sentinel\<rparr>]"
  define S2 where "S2 = (if m_freeListFront m = sentinel then S1
                    else S1[b := (S1 ! b)\<lparr>index := index h\<rparr>])"
  define S3 where "S3 = (if 1 < n then S2[kl := (S2 ! kl)\<lparr>index := of_nat p\<rparr>] else S2)"
  define m' where "m' = m\<lparr>m_fragmented := 1,
               m_sparseIds := S3,
               m_freeListFront := (if m_freeListFront m = sentinel then index h
                                   else m_freeListFront m),
               m_freeListBack := index h,
               m_items := butlast (swap_with_back (m_items m) p),
               m_meta := butlast (swap_with_back (m_meta m) p)\<rparr>"
  note lf = live_facts [OF ok lv]
  have kS: "k < length S" and fk: "free (S ! k) = 0" and pn: "p < n" and sp: "slot_of m p = k"
    using lf by (simp_all add: k_def S_def p_def n_def)
  have mt: "length (m_meta m) = n" using dense_okD(1) [OF ok] by (simp add: n_def)
  have n32: "n < 2 ^ 32" using dense_okD(2) [OF ok] by (simp add: n_def)
  have npos: "0 < n" using pn by simp
  have mne: "m_meta m \<noteq> []" using mt npos by auto
  have kl: "kl = slot_of m (n - 1)"
    using mne mt by (simp add: kl_def slot_of_def last_conv_nth)
  have n1: "n - 1 < length (m_items m)" using npos by (simp add: n_def)
  have klS: "kl < length S" unfolding kl S_def by (rule dense_okD(4) [OF ok n1])
  have fkl: "free (S ! kl) = 0" unfolding kl S_def by (rule dense_okD(5) [OF ok n1])
  have ikl: "index (S ! kl) = of_nat (n - 1)" unfolding kl S_def by (rule dense_okD(6) [OF ok n1])
  have ik: "index (S ! k) = of_nat p"
    using dense_okD(6) [OF ok, of p] pn sp by (simp add: S_def n_def)
  have bS: "m_freeListFront m \<noteq> sentinel \<Longrightarrow> b < length S \<and> free (S ! b) = 1"
    using fl by (simp add: b_def S_def)
  have bk: "m_freeListFront m \<noteq> sentinel \<Longrightarrow> b \<noteq> k \<and> b \<noteq> kl"
    using bS fk fkl by auto
  have e: "erase m h = Inr (m', 1)"
  proof -
    have v: "isValid m h" using lv by (simp add: live_def)
    have "m_freeListFront m = sentinel \<or> unat (m_freeListBack m) < length (m_sparseIds m)"
      using fl by auto
    moreover have "length (m_meta m) = length (m_items m)" using mt by (simp add: n_def)
    moreover have "1 < length (m_items m) \<longrightarrow>
             unat (denseToSparse (last (m_meta m))) < length (m_sparseIds m)"
      using klS by (simp add: kl_def S_def)
    ultimately show ?thesis
      using erase_unfold [OF v]
      by (simp add: Let_def m'_def S3_def S2_def S1_def kl_def b_def p_def k_def S_def n_def)
  qed
  have inj: "a = c" if "a < n" "c < n" "slot_of m a = slot_of m c" for a c
    using slot_of_inj [OF ok, of a c] that by (simp add: n_def)
  have n1n: "n - 1 < n" using npos by simp
  have len1: "length S1 = length S" by (simp add: S1_def)
  have len2: "length S2 = length S" by (simp add: S2_def len1)
  have len3: "length S3 = length S" by (simp add: S3_def len2)
  have free1: "free (S1 ! j) = (if j = k then 1 else free (S ! j))" if "j < length S" for j
    using that by (simp add: S1_def nth_list_update)
  have gen1: "generation (S1 ! j) = (if j = k then generation (S ! k) + 1 else generation (S ! j))"
    if "j < length S" for j
    using that by (simp add: S1_def nth_list_update)
  have idx1: "index (S1 ! j) = (if j = k then sentinel else index (S ! j))"
    if "j < length S" for j
    using that by (simp add: S1_def nth_list_update)
  have free2: "free (S2 ! j) = free (S1 ! j)" for j by (simp add: S2_def)
  have gen2: "generation (S2 ! j) = generation (S1 ! j)" for j by (simp add: S2_def)
  have idx2: "index (S2 ! j) =
      (if m_freeListFront m \<noteq> sentinel \<and> j = b then index h else index (S1 ! j))" for j
    using bS by (simp add: S2_def index_index_update len1)
  have free3: "free (S3 ! j) = (if j = k then 1 else free (S ! j))" if "j < length S" for j
  proof -
    have "free (S3 ! j) = free (S1 ! j)" by (simp add: S3_def free2)
    then show ?thesis by (simp only: free1 [OF that])
  qed
  have gen3: "generation (S3 ! j) = (if j = k then generation (S ! k) + 1 else generation (S ! j))"
    if "j < length S" for j
  proof -
    have "generation (S3 ! j) = generation (S1 ! j)" by (simp add: S3_def gen2)
    then show ?thesis by (simp only: gen1 [OF that])
  qed
  have idx3: "index (S3 ! j) =
      (if 1 < n \<and> j = kl then of_nat p
       else if m_freeListFront m \<noteq> sentinel \<and> j = b then index h
       else if j = k then sentinel else index (S ! j))" if "j < length S" for j
  proof -
    have "index (S3 ! j) = (if 1 < n \<and> j = kl then of_nat p else index (S2 ! j))"
      using klS by (simp add: S3_def index_index_update len2)
    then show ?thesis by (simp only: idx2 idx1 [OF that])
  qed
  have same3: "S3 ! j = S ! j"
    if "j < length S" "j \<noteq> k" "j \<noteq> kl" "m_freeListFront m = sentinel \<or> j \<noteq> b" for j
  proof -
    have "S3 ! j = S2 ! j" using that(3) by (simp add: S3_def)
    also have "S2 ! j = S1 ! j" using that(4) by (auto simp: S2_def)
    also have "S1 ! j = S ! j" using that(2) by (simp add: S1_def)
    finally show ?thesis .
  qed
  have items': "m_items m' = butlast (swap_with_back (m_items m) p)"
    and meta': "m_meta m' = butlast (swap_with_back (m_meta m) p)"
    and sparse': "m_sparseIds m' = S3"
    by (simp_all add: m'_def)
  have slot': "slot_of m' q = (if q = p then kl else slot_of m q)" if "q < n - 1" for q
    using that pn mt mne
    by (simp add: slot_of_def meta' swap_with_back_nth kl_def)
  have d: "dense_ok m'"
    unfolding dense_ok_def
  proof (intro conjI allI impI)
    show "length (m_meta m') = length (m_items m')" using mt by (simp add: items' meta' n_def)
    show "length (m_items m') < 2 ^ 32" using n32 by (simp add: items' n_def)
    show "Suc (length (m_sparseIds m')) < 2 ^ 32"
      using dense_okD(3) [OF ok] by (simp add: sparse' len3 S_def)
  next
    fix q assume "q < length (m_items m')"
    then have q: "q < n - 1" by (simp add: items' n_def)
    show "slot_of m' q < length (m_sparseIds m')"
      using q klS dense_okD(4) [OF ok, of q] by (simp add: slot' sparse' len3 S_def n_def)
    have fi: "free (m_sparseIds m' ! slot_of m' q) = 0 \<and>
          index (m_sparseIds m' ! slot_of m' q) = of_nat q"
    proof (cases "q = p")
      case True
      with q have "kl \<noteq> k"
        using inj [OF n1n pn] sp kl by auto
      moreover from q have "1 < n" by simp
      ultimately show ?thesis using True q klS fkl
        by (simp add: slot' sparse' free3 idx3)
    next
      case False
      define j where "j = slot_of m q"
      have jS: "j < length S" and fj: "free (S ! j) = 0" and ij: "index (S ! j) = of_nat q"
        using dense_okD(4,5,6) [OF ok, of q] q by (simp_all add: j_def S_def n_def)
      have qn: "q < n" using q by simp
      have "j \<noteq> k" using inj [OF qn pn] sp False by (auto simp: j_def)
      moreover have "j \<noteq> kl"
        using inj [OF qn n1n] kl q by (auto simp: j_def)
      moreover have "m_freeListFront m = sentinel \<or> j \<noteq> b" using bS fj by auto
      ultimately have "S3 ! j = S ! j" using jS by (intro same3)
      with False q fj ij show ?thesis by (simp add: slot' sparse' j_def)
    qed
    from fi show "free (m_sparseIds m' ! slot_of m' q) = 0" by simp
    from fi show "index (m_sparseIds m' ! slot_of m' q) = of_nat q" by simp
  next
    fix j assume j: "j < length (m_sparseIds m')" and f: "free (m_sparseIds m' ! j) = 0"
    then have jS: "j < length S" by (simp add: sparse' len3)
    from f jS have jk: "j \<noteq> k" and fj: "free (S ! j) = 0"
      by (auto simp: sparse' free3 split: if_splits)
    define q where "q = unat (index (S ! j))"
    have qn: "q < n" and sq: "slot_of m q = j" and iq: "index (S ! j) = of_nat q"
      using dense_okD(7,8) [OF ok, of j] jS fj by (simp_all add: q_def S_def n_def)
    have qp: "q \<noteq> p" using sq sp jk by auto
    have jb: "m_freeListFront m = sentinel \<or> j \<noteq> b" using bS fj by auto
    have us: "unat (index (m_sparseIds m' ! j)) < length (m_items m') \<and>
          slot_of m' (unat (index (m_sparseIds m' ! j))) = j"
    proof (cases "j = kl")
      case True
      then have "q = n - 1"
        using inj [OF qn n1n] sq kl by auto
      with qp pn have p1: "p < n - 1" and n1: "1 < n" by simp_all
      from True n1 jS have "index (S3 ! j) = of_nat p" by (simp add: idx3)
      then have "unat (index (S3 ! j)) = p" using pn n32 by (simp add: unat_of_nat_32)
      with p1 True show ?thesis by (simp add: sparse' items' n_def slot')
    next
      case False
      then have qn1: "q \<noteq> n - 1" using sq kl by auto
      with qn have q1: "q < n - 1" by simp
      have "S3 ! j = S ! j" using jS jk False jb by (intro same3)
      with q1 qp sq show ?thesis by (simp add: sparse' items' n_def slot' q_def)
    qed
    from us show "unat (index (m_sparseIds m' ! j)) < length (m_items m')" by simp
    from us show "slot_of m' (unat (index (m_sparseIds m' ! j))) = j" by simp
  qed
  have g: "generation h = generation (S ! k)" using lf(6) by (simp add: S_def k_def)
  have o: "\<forall>j < length (m_sparseIds m). free (m_sparseIds m ! j) = 1 \<longrightarrow>
              (m_freeListFront m = sentinel \<or> j \<noteq> unat (m_freeListBack m)) \<longrightarrow>
              m_sparseIds m' ! j = m_sparseIds m ! j"
  proof (intro allI impI)
    fix j assume "j < length (m_sparseIds m)" "free (m_sparseIds m ! j) = 1"
      "m_freeListFront m = sentinel \<or> j \<noteq> unat (m_freeListBack m)"
    then have "j < length S" "j \<noteq> k" "j \<noteq> kl" "m_freeListFront m = sentinel \<or> j \<noteq> b"
      using fk fkl by (auto simp: S_def b_def)
    then have "S3 ! j = S ! j" by (rule same3)
    then show "m_sparseIds m' ! j = m_sparseIds m ! j" by (simp add: sparse' S_def)
  qed
  have bl: "m_freeListFront m \<noteq> sentinel \<longrightarrow>
              index (m_sparseIds m' ! unat (m_freeListBack m)) = index h"
    using bS bk by (auto simp: sparse' idx3 b_def)
  show ?thesis
    apply (rule exI [of _ m'])
    apply (intro conjI)
    subgoal by (rule e)
    subgoal by (rule d)
    subgoal by (simp add: sparse' len3 S_def)
    subgoal by (simp add: items' n_def)
    subgoal by (simp add: m'_def)
    subgoal by (simp add: m'_def)
    subgoal by (simp add: m'_def)
    subgoal using kS by (simp add: sparse' free3 k_def)
    subgoal using kS g by (simp add: sparse' gen3 k_def [symmetric])
    subgoal using free3 gen3 by (simp add: sparse' S_def k_def)
    subgoal by (rule bl)
    subgoal by (rule o)
    done
qed

lemma live_after_erase:
  assumes ok: "dense_ok m" and ok': "dense_ok m'" and lg: "live m g"
    and ne: "index g \<noteq> index h"
    and len: "length (m_sparseIds m') = length (m_sparseIds m)"
    and tid: "m_itemTypeId m' = m_itemTypeId m"
    and same: "\<forall>j < length (m_sparseIds m). j \<noteq> unat (index h) \<longrightarrow>
              free (m_sparseIds m' ! j) = free (m_sparseIds m ! j) \<and>
              generation (m_sparseIds m' ! j) = generation (m_sparseIds m ! j)"
  shows "live m' g"
proof -
  note lf = live_facts [OF ok lg]
  from ne have j: "unat (index g) \<noteq> unat (index h)" by (simp add: word_unat_eq_iff)
  with same lf(1) have f: "free (m_sparseIds m' ! unat (index g)) = 0"
    and g: "generation (m_sparseIds m' ! unat (index g)) = generation g"
    using lf(2,6) by simp_all
  from lf(1) len have l: "unat (index g) < length (m_sparseIds m')" by simp
  from dense_okD(7) [OF ok' l f] l g lf(5) tid f show ?thesis
    by (simp add: live_def isValid_def Let_def)
qed

lemma insert_pop:
  assumes "m_freeListFront m \<noteq> sentinel"
    and "unat (m_freeListFront m) < length (m_sparseIds m)"
  shows "\<exists>m' h'. insert_item m x = Inr (m', h') \<and>
           index h' = m_freeListFront m \<and>
           generation h' = generation (m_sparseIds m ! unat (m_freeListFront m)) \<and>
           m_freeListFront m' = index (m_sparseIds m ! unat (m_freeListFront m)) \<and>
           length (m_sparseIds m') = length (m_sparseIds m) \<and>
           (\<forall>j. j \<noteq> unat (m_freeListFront m) \<longrightarrow> m_sparseIds m' ! j = m_sparseIds m ! j)"
  using assms
  by (simp add: insert_item_def Let_def freeListEmpty_def push_back_item_def)

text \<open>
  Claim C6, amended: in a state that satisfies the invariants of the dense storage
  and whose free-list is empty, erasing three live handles of different slots and then
  inserting three items reissues the three slots in the order of the erases, each
  with its generation incremented.
\<close>

theorem free_list_fifo:
  assumes ok: "dense_ok m" and em: "m_freeListFront m = sentinel"
    and l1: "live m h1" and l2: "live m h2" and l3: "live m h3"
    and d12: "index h1 \<noteq> index h2" and d13: "index h1 \<noteq> index h3"
    and d23: "index h2 \<noteq> index h3"
  shows "\<exists>m' g1 g2 g3.
           run m [Erase h1, Erase h2, Erase h3, Insert x, Insert y, Insert z] =
             Inr (m', [Count 1, Count 1, Count 1, Handle g1, Handle g2, Handle g3]) \<and>
           index g1 = index h1 \<and> index g2 = index h2 \<and> index g3 = index h3 \<and>
           generation g1 = generation h1 + 1 \<and> generation g2 = generation h2 + 1 \<and>
           generation g3 = generation h3 + 1"
proof -
  let ?k1 = "unat (index h1)" and ?k2 = "unat (index h2)" and ?k3 = "unat (index h3)"
  have k12: "?k1 \<noteq> ?k2" and k13: "?k1 \<noteq> ?k3" and k23: "?k2 \<noteq> ?k3"
    using d12 d13 d23 by (simp_all add: word_unat_eq_iff)
  note f1 = live_facts [OF ok l1] and f2 = live_facts [OF ok l2] and f3 = live_facts [OF ok l3]
  \<comment> \<open>first erase: the free-list is empty\<close>
  from erase_live [OF ok l1] em obtain m1 where
    e1: "erase m h1 = Inr (m1, 1)" and ok1: "dense_ok m1"
    and len1: "length (m_sparseIds m1) = length (m_sparseIds m)"
    and tid1: "m_itemTypeId m1 = m_itemTypeId m"
    and fr1: "m_freeListFront m1 = index h1" and bk1: "m_freeListBack m1 = index h1"
    and free1: "free (m_sparseIds m1 ! ?k1) = 1"
    and gen1: "generation (m_sparseIds m1 ! ?k1) = generation h1 + 1"
    and same1: "\<forall>j < length (m_sparseIds m). j \<noteq> ?k1 \<longrightarrow>
              free (m_sparseIds m1 ! j) = free (m_sparseIds m ! j) \<and>
              generation (m_sparseIds m1 ! j) = generation (m_sparseIds m ! j)"
    by auto
  have l2': "live m1 h2"
    using live_after_erase [OF ok ok1 l2 d12 [symmetric] len1 tid1 same1] .
  have l3': "live m1 h3"
    using live_after_erase [OF ok ok1 l3 d13 [symmetric] len1 tid1 same1] .
  \<comment> \<open>second erase: the back is slot 1, which is free\<close>
  have b1: "m_freeListFront m1 = sentinel \<or>
             (unat (m_freeListBack m1) < length (m_sparseIds m1) \<and>
              free (m_sparseIds m1 ! unat (m_freeListBack m1)) = 1)"
    using f1(1) free1 by (simp add: bk1 len1)
  have ne1: "m_freeListFront m1 \<noteq> sentinel" using f1(7) by (simp add: fr1)
  from erase_live [OF ok1 l2' b1] ne1 obtain m2 where
    e2: "erase m1 h2 = Inr (m2, 1)" and ok2: "dense_ok m2"
    and len2: "length (m_sparseIds m2) = length (m_sparseIds m1)"
    and tid2: "m_itemTypeId m2 = m_itemTypeId m1"
    and fr2: "m_freeListFront m2 = index h1" and bk2: "m_freeListBack m2 = index h2"
    and free2: "free (m_sparseIds m2 ! ?k2) = 1"
    and gen2: "generation (m_sparseIds m2 ! ?k2) = generation h2 + 1"
    and same2: "\<forall>j < length (m_sparseIds m1). j \<noteq> ?k2 \<longrightarrow>
              free (m_sparseIds m2 ! j) = free (m_sparseIds m1 ! j) \<and>
              generation (m_sparseIds m2 ! j) = generation (m_sparseIds m1 ! j)"
    and link2: "index (m_sparseIds m2 ! ?k1) = index h2"
    by (auto simp: fr1 bk1)
  have l3'': "live m2 h3"
    using live_after_erase [OF ok1 ok2 l3' d23 [symmetric] len2 tid2 same2] .
  have free21: "free (m_sparseIds m2 ! ?k1) = 1" and gen21: "generation (m_sparseIds m2 ! ?k1) = generation h1 + 1"
    using same2 f1(1) k12 free1 gen1 by (simp_all add: len1)
  \<comment> \<open>third erase: the back is slot 2\<close>
  have b2: "m_freeListFront m2 = sentinel \<or>
             (unat (m_freeListBack m2) < length (m_sparseIds m2) \<and>
              free (m_sparseIds m2 ! unat (m_freeListBack m2)) = 1)"
    using f2(1) free2 by (simp add: bk2 len2 len1)
  have ne2: "m_freeListFront m2 \<noteq> sentinel" using f1(7) by (simp add: fr2)
  from erase_live [OF ok2 l3'' b2] ne2 obtain m3 where
    e3: "erase m2 h3 = Inr (m3, 1)"
    and len3: "length (m_sparseIds m3) = length (m_sparseIds m2)"
    and fr3: "m_freeListFront m3 = index h1"
    and gen3: "generation (m_sparseIds m3 ! ?k3) = generation h3 + 1"
    and same3: "\<forall>j < length (m_sparseIds m2). j \<noteq> ?k3 \<longrightarrow>
              free (m_sparseIds m3 ! j) = free (m_sparseIds m2 ! j) \<and>
              generation (m_sparseIds m3 ! j) = generation (m_sparseIds m2 ! j)"
    and link3: "index (m_sparseIds m3 ! ?k2) = index h3"
    and keep3: "\<forall>j < length (m_sparseIds m2). free (m_sparseIds m2 ! j) = 1 \<longrightarrow>
              (m_freeListFront m2 = sentinel \<or> j \<noteq> unat (m_freeListBack m2)) \<longrightarrow>
              m_sparseIds m3 ! j = m_sparseIds m2 ! j"
    by (auto simp: fr2 bk2)
  have s31: "m_sparseIds m3 ! ?k1 = m_sparseIds m2 ! ?k1"
    using keep3 f1(1) free21 k12 by (simp add: len2 len1 bk2)
  have lenall: "length (m_sparseIds m3) = length (m_sparseIds m)"
    by (simp add: len3 len2 len1)
  have gen32: "generation (m_sparseIds m3 ! ?k2) = generation h2 + 1"
    using same3 f2(1) k23 gen2 by (simp add: len2 len1)
  \<comment> \<open>first insert pops slot 1\<close>
  from insert_pop [of m3 x] f1(1,7) obtain m4 g1 where
    i1: "insert_item m3 x = Inr (m4, g1)" and ig1: "index g1 = index h1"
    and gg1: "generation g1 = generation (m_sparseIds m3 ! ?k1)"
    and fr4: "m_freeListFront m4 = index (m_sparseIds m3 ! ?k1)"
    and len4: "length (m_sparseIds m4) = length (m_sparseIds m3)"
    and same4: "\<forall>j. j \<noteq> ?k1 \<longrightarrow> m_sparseIds m4 ! j = m_sparseIds m3 ! j"
    by (auto simp: fr3 lenall)
  have fr4': "m_freeListFront m4 = index h2" by (simp add: fr4 s31 link2)
  from insert_pop [of m4 y] f2(1,7) obtain m5 g2 where
    i2: "insert_item m4 y = Inr (m5, g2)" and ig2: "index g2 = index h2"
    and gg2: "generation g2 = generation (m_sparseIds m4 ! ?k2)"
    and fr5: "m_freeListFront m5 = index (m_sparseIds m4 ! ?k2)"
    and len5: "length (m_sparseIds m5) = length (m_sparseIds m4)"
    and same5: "\<forall>j. j \<noteq> ?k2 \<longrightarrow> m_sparseIds m5 ! j = m_sparseIds m4 ! j"
    by (auto simp: fr4' len4 lenall)
  have s42: "m_sparseIds m4 ! ?k2 = m_sparseIds m3 ! ?k2" using same4 k12 by simp
  have fr5': "m_freeListFront m5 = index h3" by (simp add: fr5 s42 link3)
  from insert_pop [of m5 z] f3(1,7) obtain m6 g3 where
    i3: "insert_item m5 z = Inr (m6, g3)" and ig3: "index g3 = index h3"
    and gg3: "generation g3 = generation (m_sparseIds m5 ! ?k3)"
    by (auto simp: fr5' len5 len4 lenall)
  have s53: "m_sparseIds m5 ! ?k3 = m_sparseIds m3 ! ?k3"
    using same5 same4 k13 k23 by simp
  have "run m [Erase h1, Erase h2, Erase h3, Insert x, Insert y, Insert z] =
             Inr (m6, [Count 1, Count 1, Count 1, Handle g1, Handle g2, Handle g3])"
    by (simp add: e1 e2 e3 i1 i2 i3)
  moreover have "generation g1 = generation h1 + 1" by (simp add: gg1 s31 gen21)
  moreover have "generation g2 = generation h2 + 1" by (simp add: gg2 s42 gen32)
  moreover have "generation g3 = generation h3 + 1" by (simp add: gg3 s53 gen3)
  ultimately show ?thesis using ig1 ig2 ig3 by blast
qed

text \<open>
  Claim C6 as stated (for every container state) fails on the code: slots that are
  already in the free-list are reissued first. With slot 0 free, erasing the handles
  of slots 1, 3, 4 and inserting three items reissues slots 0, 1, 3.
\<close>

theorem reuse_starts_with_older_free_slots:
  "run (new_handle_map 3 0)
     [Insert 10, Insert 20, Insert 30, Insert 40, Insert 50,
      Erase \<lparr>index = 0, generation = 1, typeId = 3, free = 0\<rparr>] =
     Inr (four_left,
          [Handle \<lparr>index = 0, generation = 1, typeId = 3, free = 0\<rparr>,
           Handle \<lparr>index = 1, generation = 1, typeId = 3, free = 0\<rparr>,
           Handle \<lparr>index = 2, generation = 1, typeId = 3, free = 0\<rparr>,
           Handle \<lparr>index = 3, generation = 1, typeId = 3, free = 0\<rparr>,
           Handle \<lparr>index = 4, generation = 1, typeId = 3, free = 0\<rparr>, Count 1]) \<and>
   isValid four_left \<lparr>index = 1, generation = 1, typeId = 3, free = 0\<rparr> \<and>
   isValid four_left \<lparr>index = 3, generation = 1, typeId = 3, free = 0\<rparr> \<and>
   isValid four_left \<lparr>index = 4, generation = 1, typeId = 3, free = 0\<rparr> \<and>
   map_sum id snd
     (run four_left
        [Erase \<lparr>index = 1, generation = 1, typeId = 3, free = 0\<rparr>,
         Erase \<lparr>index = 3, generation = 1, typeId = 3, free = 0\<rparr>,
         Erase \<lparr>index = 4, generation = 1, typeId = 3, free = 0\<rparr>,
         Insert 60, Insert 70, Insert 80]) =
     Inr [Count 1, Count 1, Count 1,
          Handle \<lparr>index = 0, generation = 2, typeId = 3, free = 0\<rparr>,
          Handle \<lparr>index = 1, generation = 2, typeId = 3, free = 0\<rparr>,
          Handle \<lparr>index = 3, generation = 2, typeId = 3, free = 0\<rparr>]"
  by (simp add: run_defs four_left_def)

lemma three_items_dense_ok: "dense_ok three_items"
  by (simp add: dense_ok_def slot_of_def three_items_def less_Suc_eq numeral_3_eq_3)

theorem free_list_fifo_witness:
  "dense_ok three_items \<and> m_freeListFront three_items = sentinel \<and>
   live three_items handle_1 \<and> live three_items handle_0 \<and> live three_items handle_2 \<and>
   index handle_1 \<noteq> index handle_0 \<and> index handle_1 \<noteq> index handle_2 \<and>
   index handle_0 \<noteq> index handle_2 \<and>
   map_sum id snd
     (run three_items
        [Erase handle_1, Erase handle_0, Erase handle_2, Insert 7, Insert 8, Insert 9]) =
     Inr [Count 1, Count 1, Count 1,
          Handle \<lparr>index = 1, generation = 2, typeId = 3, free = 0\<rparr>,
          Handle \<lparr>index = 0, generation = 2, typeId = 3, free = 0\<rparr>,
          Handle \<lparr>index = 2, generation = 2, typeId = 3, free = 0\<rparr>]"
proof -
  have e: "m_freeListFront three_items = sentinel" by (simp add: three_items_def)
  have l: "live three_items handle_1" "live three_items handle_0" "live three_items handle_2"
    by (simp_all add: live_def isValid_def three_items_def handle_0_def handle_1_def handle_2_def)
  have d: "index handle_1 \<noteq> index handle_0" "index handle_1 \<noteq> index handle_2"
    "index handle_0 \<noteq> index handle_2"
    by (simp_all add: handle_0_def handle_1_def handle_2_def)
  from free_list_fifo [OF three_items_dense_ok e l d, of 7 8 9] obtain m' g1 g2 g3 where
    r: "run three_items
          [Erase handle_1, Erase handle_0, Erase handle_2, Insert 7, Insert 8, Insert 9] =
        Inr (m', [Count 1, Count 1, Count 1, Handle g1, Handle g2, Handle g3])"
    and i: "index g1 = index handle_1" "index g2 = index handle_0" "index g3 = index handle_2"
    and g: "generation g1 = generation handle_1 + 1" "generation g2 = generation handle_0 + 1"
           "generation g3 = generation handle_2 + 1"
    by blast
  have "map_sum id snd
     (run three_items
        [Erase handle_1, Erase handle_0, Erase handle_2, Insert 7, Insert 8, Insert 9]) =
     Inr [Count 1, Count 1, Count 1,
          Handle \<lparr>index = 1, generation = 2, typeId = 3, free = 0\<rparr>,
          Handle \<lparr>index = 0, generation = 2, typeId = 3, free = 0\<rparr>,
          Handle \<lparr>index = 2, generation = 2, typeId = 3, free = 0\<rparr>]"
    by (simp add: run_defs three_items_def handle_0_def handle_1_def handle_2_def)
  with three_items_dense_ok e l d r show ?thesis by simp
qed

section \<open>defragment: order, back-references and handles\<close>


lemma shift_step_simps [simp]:
  "m_items (shift_step m j) = (m_items m)[Suc j := m_items m ! j]"
  "m_meta (shift_step m j) = (m_meta m)[Suc j := m_meta m ! j]"
  "m_sparseIds (shift_step m j) =
     (m_sparseIds m)[slot_of m j := (m_sparseIds m ! slot_of m j)\<lparr>index := of_nat (Suc j)\<rparr>]"
  "m_fragmented (shift_step m j) = m_fragmented m"
  "m_freeListFront (shift_step m j) = m_freeListFront m"
  "m_freeListBack (shift_step m j) = m_freeListBack m"
  "m_itemTypeId (shift_step m j) = m_itemTypeId m"
  "m_capacity (shift_step m j) = m_capacity m"
  by (simp_all add: shift_step_def set_sparse_index_def)


declare shift_standard.simps(2) [simp del]










declare scan_trivial.simps(2) [simp del]
















lemma prefix_ordered_nth:
  "prefix_ordered cmp xs i \<longleftrightarrow>
     (\<forall>p. Suc p < i \<and> Suc p < length xs \<longrightarrow> \<not> cmp (xs ! p) (xs ! Suc p))"
  by (auto simp: prefix_ordered_def successively_conv_nth)







lemma fragmented_update_simps [simp]:
  "dense_ok (m\<lparr>m_fragmented := v\<rparr>) = dense_ok m"
  "live (m\<lparr>m_fragmented := v\<rparr>) h = live m h"
  "at (m\<lparr>m_fragmented := v\<rparr>) h = at m h"
  by (simp_all add: dense_ok_def live_def isValid_def at_def getInnerIndex_def slot_of_def Let_def)

lemma prefix_ordered_1 [simp]: "prefix_ordered cmp xs (Suc 0)"
  by (simp add: prefix_ordered_nth)








end
